theory Spec2Isabelle
  imports Complex_Main
begin

section \<open>Python strings\<close>

text \<open>
  A Python \<^verbatim>\<open>str\<close> is modelled as a \<^typ>\<open>string\<close> whose characters are the code
  points below 256. On that range \<^verbatim>\<open>str.isspace\<close>, which decides what
  \<^verbatim>\<open>str.split()\<close>, \<^verbatim>\<open>str.strip()\<close> and the regular expression class \<^verbatim>\<open>\s\<close>
  treat as whitespace, holds for the code points 9 to 13, 28 to 32, 133 and 160.
\<close>

definition whitespace_chars :: "char list" where
  "whitespace_chars =
     [CHR 0x09, CHR 0x0A, CHR 0x0B, CHR 0x0C, CHR 0x0D,
      CHR 0x1C, CHR 0x1D, CHR 0x1E, CHR 0x1F, CHR 0x20, CHR 0x85, CHR 0xA0]"

definition isspace :: "char \<Rightarrow> bool" where
  "isspace c = (c \<in> set whitespace_chars)"

text \<open>
  \<^verbatim>\<open>text.split()\<close>: the maximal runs of non-whitespace characters, in order. The first
  argument of \<open>split_acc\<close> is the word read so far.
\<close>

fun split_acc :: "string \<Rightarrow> string \<Rightarrow> string list" where
  "split_acc w [] = (if w = [] then [] else [w])"
| "split_acc w (c # cs) =
     (if isspace c then (if w = [] then split_acc [] cs else w # split_acc [] cs)
      else split_acc (w @ [c]) cs)"

definition str_split :: "string \<Rightarrow> string list" where
  "str_split s = split_acc [] s"

text \<open>\<^verbatim>\<open>" ".join(words)\<close>\<close>

fun join_space :: "string list \<Rightarrow> string" where
  "join_space [] = []"
| "join_space [w] = w"
| "join_space (w # v # ws) = w @ CHR '' '' # join_space (v # ws)"

text \<open>
  \<^verbatim>\<open>xs[i:j]\<close> for Python integers \<open>i\<close> and \<open>j\<close>: a negative bound counts from the
  end, and both bounds are clamped to the list.
\<close>

definition slice_bound :: "int \<Rightarrow> int \<Rightarrow> int" where
  "slice_bound n i = (if i < 0 then max (i + n) 0 else min i n)"

definition py_slice :: "'a list \<Rightarrow> int \<Rightarrow> int \<Rightarrow> 'a list" where
  "py_slice xs i j =
     (let n = int (length xs); lo = slice_bound n i; hi = slice_bound n j
      in take (nat (hi - lo)) (drop (nat lo) xs))"

text \<open>
  \<^verbatim>\<open>re.sub(r"\s+", " ", text)\<close>: every maximal run of whitespace becomes one space.
\<close>

function re_sub_ws :: "string \<Rightarrow> string" where
  "re_sub_ws [] = []"
| "re_sub_ws (c # cs) =
     (if isspace c then CHR '' '' # re_sub_ws (dropWhile isspace cs)
      else c # re_sub_ws cs)"
  by pat_completeness auto
termination
  by (relation "measure length") (auto simp: less_Suc_eq_le length_dropWhile_le)

text \<open>\<^verbatim>\<open>text.strip()\<close>\<close>

definition str_strip :: "string \<Rightarrow> string" where
  "str_strip s = rev (dropWhile isspace (rev (dropWhile isspace s)))"

text \<open>
  The whitespace normalisation of both page readers:
  \<^verbatim>\<open>re.sub(r"\s+", " ", text).strip()\<close>.
\<close>

definition normalize :: "string \<Rightarrow> string" where
  "normalize text = str_strip (re_sub_ws text)"

section \<open>Chunking\<close>

text \<open>
  The \<^verbatim>\<open>while\<close> loop of \<^verbatim>\<open>chunk_text\<close> in \<^verbatim>\<open>ingest_aviation_manuals.py\<close>. The
  loop variables are \<open>start\<close> and \<open>chunks\<close>. Nothing in the source bounds the number of
  iterations, so the loop is a partial function: \<open>None\<close> means that it does not return.
\<close>

partial_function (option) chunk_text_loop ::
  "string list \<Rightarrow> int \<Rightarrow> int \<Rightarrow> int \<Rightarrow> string list \<Rightarrow> string list option" where
  "chunk_text_loop words max_tokens overlap start chunks =
     (if start < int (length words) then
        (let end = min (start + max_tokens) (int (length words));
             chunk = join_space (py_slice words start end);
             chunks' = chunks @ [chunk]
         in if end \<ge> int (length words) then Some chunks'
            else chunk_text_loop words max_tokens overlap (end - overlap) chunks')
      else Some chunks)"

declare chunk_text_loop.simps [code]

definition chunk_text :: "string \<Rightarrow> int \<Rightarrow> int \<Rightarrow> string list option" where
  "chunk_text text max_tokens overlap =
     map_option (filter (\<lambda>c. length (str_split c) > 50))
       (chunk_text_loop (str_split text) max_tokens overlap 0 [])"

text \<open>
  The method \<^verbatim>\<open>AviationManualProcessor.chunk_text\<close> of
  \<^verbatim>\<open>aviation_manual_processor.py\<close>, with its own loop.
\<close>

partial_function (option) AviationManualProcessor_chunk_text_loop ::
  "string list \<Rightarrow> int \<Rightarrow> int \<Rightarrow> int \<Rightarrow> string list \<Rightarrow> string list option" where
  "AviationManualProcessor_chunk_text_loop words max_words overlap start chunks =
     (if start < int (length words) then
        (let end = min (start + max_words) (int (length words));
             chunk = join_space (py_slice words start end);
             chunks' = chunks @ [chunk]
         in if end \<ge> int (length words) then Some chunks'
            else AviationManualProcessor_chunk_text_loop words max_words overlap
                   (end - overlap) chunks')
      else Some chunks)"

declare AviationManualProcessor_chunk_text_loop.simps [code]

definition AviationManualProcessor_chunk_text ::
  "string \<Rightarrow> int \<Rightarrow> int \<Rightarrow> string list option" where
  "AviationManualProcessor_chunk_text text max_words overlap =
     map_option (filter (\<lambda>c. length (str_split c) > 50))
       (AviationManualProcessor_chunk_text_loop (str_split text) max_words overlap 0 [])"

text \<open>
  The same loop, recording instead of each chunk the word range \<open>(start, end)\<close> it was
  cut from: \<open>chunk_spans\<close> is \<open>chunk_text_loop\<close> with \<open>(start, end)\<close> appended where the
  source appends \<^verbatim>\<open>" ".join(words[start:end])\<close>.
\<close>

partial_function (option) chunk_spans ::
  "nat \<Rightarrow> int \<Rightarrow> int \<Rightarrow> int \<Rightarrow> (int \<times> int) list \<Rightarrow> (int \<times> int) list option" where
  "chunk_spans len max_tokens overlap start spans =
     (if start < int len then
        (let end = min (start + max_tokens) (int len);
             spans' = spans @ [(start, end)]
         in if end \<ge> int len then Some spans'
            else chunk_spans len max_tokens overlap (end - overlap) spans')
      else Some spans)"

declare chunk_spans.simps [code]

text \<open>The number of word positions that two ranges \<open>[s, e)\<close> have in common.\<close>

definition span_overlap :: "int \<times> int \<Rightarrow> int \<times> int \<Rightarrow> int" where
  "span_overlap a b = max 0 (min (snd a) (snd b) - max (fst a) (fst b))"

text \<open>Ceiling division of integers, for a positive divisor.\<close>

definition ceil_div :: "int \<Rightarrow> int \<Rightarrow> int" where
  "ceil_div a b = - ((- a) div b)"

text \<open>The chunk that the loop cuts from a word range.\<close>

definition cut :: "string list \<Rightarrow> int \<times> int \<Rightarrow> string" where
  "cut ws r = join_space (py_slice ws (fst r) (snd r))"

text \<open>A word, as \<^verbatim>\<open>split()\<close> returns it: not empty and free of whitespace.\<close>

definition is_word :: "string \<Rightarrow> bool" where
  "is_word w = (w \<noteq> [] \<and> list_all (\<lambda>c. \<not> isspace c) w)"

text \<open>No two neighbouring characters of the string are both whitespace.\<close>

fun no_adjacent_ws :: "string \<Rightarrow> bool" where
  "no_adjacent_ws [] = True"
| "no_adjacent_ws [c] = True"
| "no_adjacent_ws (a # b # cs) = (\<not> (isspace a \<and> isspace b) \<and> no_adjacent_ws (b # cs))"

section \<open>Regular expressions\<close>

text \<open>
  The patterns of the metadata extractors use literals, character sets, the classes
  \<^verbatim>\<open>\s\<close> and \<^verbatim>\<open>\d\<close>, the assertion \<^verbatim>\<open>\b\<close>, concatenation and greedy repetition
  (\<^verbatim>\<open>*\<close>, \<^verbatim>\<open>+\<close>, \<^verbatim>\<open>?\<close>, \<^verbatim>\<open>{2}\<close>, \<^verbatim>\<open>{2,}\<close>). The only capturing group, in the part
  number pattern, spans the whole pattern between two zero-width assertions, so that
  \<^verbatim>\<open>group(1)\<close> is \<^verbatim>\<open>group(0)\<close> there; groups are therefore not represented.
\<close>

definition ascii_uppercase :: string where
  "ascii_uppercase = ''ABCDEFGHIJKLMNOPQRSTUVWXYZ''"

definition ascii_lowercase :: string where
  "ascii_lowercase = ''abcdefghijklmnopqrstuvwxyz''"

definition digits :: string where
  "digits = ''0123456789''"

text \<open>The class \<^verbatim>\<open>\d\<close>: below code point 256 the decimal digits are \<^verbatim>\<open>0\<close> to \<^verbatim>\<open>9\<close>.\<close>

definition isdigit :: "char \<Rightarrow> bool" where
  "isdigit c = (c \<in> set digits)"

text \<open>
  Case folding under \<^verbatim>\<open>re.IGNORECASE\<close>: below code point 256, only the ASCII letters
  have a case variant that an ASCII literal or an ASCII range of these patterns can match.
\<close>

definition swapcase :: "char \<Rightarrow> char" where
  "swapcase c =
     (case map_of (zip ascii_uppercase ascii_lowercase @ zip ascii_lowercase ascii_uppercase) c of
        Some d \<Rightarrow> d
      | None \<Rightarrow> c)"

text \<open>
  The class \<^verbatim>\<open>\w\<close> that \<^verbatim>\<open>\b\<close> looks at: the underscore and the alphanumeric code
  points, which below 256 are the ASCII letters and digits and the code points listed in
  \<open>latin1_alnum\<close>.
\<close>

definition latin1_alnum :: "char list" where
  "latin1_alnum =
     [CHR 0xAA, CHR 0xB2, CHR 0xB3, CHR 0xB5, CHR 0xB9, CHR 0xBA, CHR 0xBC, CHR 0xBD,
      CHR 0xBE, CHR 0xC0, CHR 0xC1, CHR 0xC2, CHR 0xC3, CHR 0xC4, CHR 0xC5, CHR 0xC6,
      CHR 0xC7, CHR 0xC8, CHR 0xC9, CHR 0xCA, CHR 0xCB, CHR 0xCC, CHR 0xCD, CHR 0xCE,
      CHR 0xCF, CHR 0xD0, CHR 0xD1, CHR 0xD2, CHR 0xD3, CHR 0xD4, CHR 0xD5, CHR 0xD6,
      CHR 0xD8, CHR 0xD9, CHR 0xDA, CHR 0xDB, CHR 0xDC, CHR 0xDD, CHR 0xDE, CHR 0xDF,
      CHR 0xE0, CHR 0xE1, CHR 0xE2, CHR 0xE3, CHR 0xE4, CHR 0xE5, CHR 0xE6, CHR 0xE7,
      CHR 0xE8, CHR 0xE9, CHR 0xEA, CHR 0xEB, CHR 0xEC, CHR 0xED, CHR 0xEE, CHR 0xEF,
      CHR 0xF0, CHR 0xF1, CHR 0xF2, CHR 0xF3, CHR 0xF4, CHR 0xF5, CHR 0xF6, CHR 0xF8,
      CHR 0xF9, CHR 0xFA, CHR 0xFB, CHR 0xFC, CHR 0xFD, CHR 0xFE, CHR 0xFF]"

definition is_word_char :: "char \<Rightarrow> bool" where
  "is_word_char c =
     (c \<in> set (ascii_lowercase @ ascii_uppercase @ digits @ ''_'' @ latin1_alnum))"

text \<open>
  An item of a character set: a character, a range given by the characters it contains
  (\<^verbatim>\<open>A-Z\<close> is \<open>OneOf ascii_uppercase\<close>), \<^verbatim>\<open>\s\<close> or \<^verbatim>\<open>\d\<close>.
\<close>

datatype set_item = Single char | OneOf string | SpaceClass | DigitClass

datatype regex =
    Lit char
  | CharSet "set_item list"
  | Space
  | Digit
  | Boundary
  | Eps
  | Cat regex regex
  | Repeat nat "nat option" regex

fun item_match :: "char \<Rightarrow> set_item \<Rightarrow> bool" where
  "item_match c (Single a) = (c = a)"
| "item_match c (OneOf cs) = (c \<in> set cs)"
| "item_match c SpaceClass = isspace c"
| "item_match c DigitClass = isdigit c"

definition lit_match :: "bool \<Rightarrow> char \<Rightarrow> char \<Rightarrow> bool" where
  "lit_match ignorecase a c = (c = a \<or> (ignorecase \<and> swapcase c = a))"

definition set_match :: "bool \<Rightarrow> set_item list \<Rightarrow> char \<Rightarrow> bool" where
  "set_match ignorecase items c =
     list_ex (\<lambda>i. item_match c i \<or> (ignorecase \<and> item_match (swapcase c) i)) items"

text \<open>
  A position in the text: the character before it, if any, and the rest of the text.
\<close>

type_synonym pos = "char option \<times> string"

fun step_char :: "(char \<Rightarrow> bool) \<Rightarrow> pos \<Rightarrow> pos list" where
  "step_char P (prev, []) = []"
| "step_char P (prev, c # cs) = (if P c then [(Some c, cs)] else [])"

fun at_boundary :: "pos \<Rightarrow> bool" where
  "at_boundary (prev, rest) =
     ((case prev of None \<Rightarrow> False | Some c \<Rightarrow> is_word_char c)
      \<noteq> (case rest of [] \<Rightarrow> False | c # _ \<Rightarrow> is_word_char c))"

text \<open>
  The backtracking matcher: \<open>ends ic r p\<close> lists the positions at which a match of \<open>r\<close>
  that starts at \<open>p\<close> can end, in the order in which backtracking tries them. A greedy
  repetition tries one more iteration before it tries to stop; an iteration has to
  consume a character.
\<close>

function ends :: "bool \<Rightarrow> regex \<Rightarrow> pos \<Rightarrow> pos list" where
  "ends ic (Lit a) p = step_char (lit_match ic a) p"
| "ends ic (CharSet items) p = step_char (set_match ic items) p"
| "ends ic Space p = step_char isspace p"
| "ends ic Digit p = step_char isdigit p"
| "ends ic Boundary p = (if at_boundary p then [p] else [])"
| "ends ic Eps p = [p]"
| "ends ic (Cat r1 r2) p = concat (map (ends ic r2) (ends ic r1 p))"
| "ends ic (Repeat m n r) p =
     (if n = Some 0 then [p]
      else concat (map (ends ic (Repeat (m - 1) (map_option (\<lambda>k. k - 1) n) r))
                    (filter (\<lambda>q. length (snd q) < length (snd p)) (ends ic r p)))
           @ (if m = 0 then [p] else []))"
  by pat_completeness auto
termination
  by (relation "inv_image (less_than <*lex*> less_than)
                  (\<lambda>(ic, r, p). (size r, length (snd p)))")
     auto

text \<open>
  \<^verbatim>\<open>re.search\<close>: the leftmost start position with a match, and there the first match in
  backtracking order. The result is \<^verbatim>\<open>group(0)\<close>, or \<open>None\<close>.
\<close>

fun search_from :: "bool \<Rightarrow> regex \<Rightarrow> char option \<Rightarrow> string \<Rightarrow> string option" where
  "search_from ic r prev [] = (case ends ic r (prev, []) of [] \<Rightarrow> None | q # _ \<Rightarrow> Some [])"
| "search_from ic r prev (c # cs) =
     (case ends ic r (prev, c # cs) of
        q # _ \<Rightarrow> Some (take (length (c # cs) - length (snd q)) (c # cs))
      | [] \<Rightarrow> search_from ic r (Some c) cs)"

definition re_search :: "regex \<Rightarrow> string \<Rightarrow> bool \<Rightarrow> string option" where
  "re_search pattern text ignorecase = search_from ignorecase pattern None text"

fun seq :: "regex list \<Rightarrow> regex" where
  "seq [] = Eps"
| "seq [r] = r"
| "seq (r # rs) = Cat r (seq rs)"

definition star :: "regex \<Rightarrow> regex" where
  "star r = Repeat 0 None r"

definition plus :: "regex \<Rightarrow> regex" where
  "plus r = Repeat 1 None r"

definition opt :: "regex \<Rightarrow> regex" where
  "opt r = Repeat 0 (Some 1) r"

definition lits :: "string \<Rightarrow> regex list" where
  "lits s = map Lit s"

section \<open>Metadata extraction\<close>

text \<open>\<^verbatim>\<open>\s+\d+[\.\d]*\s*[:\-]\s*[A-Z][A-Za-z0-9\-\s]+\<close>, what follows the keyword.\<close>

definition section_tail :: "regex list" where
  "section_tail =
     [plus Space, plus Digit, star (CharSet [Single CHR ''.'', DigitClass]), star Space,
      CharSet [Single CHR '':'', Single CHR ''-''], star Space,
      CharSet [OneOf ascii_uppercase],
      plus (CharSet [OneOf ascii_uppercase, OneOf ascii_lowercase,
                     OneOf digits, Single CHR ''-'', SpaceClass])]"

text \<open>\<^verbatim>\<open>SECTION\s+\d+[\.\d]*\s*[:\-]\s*[A-Z][A-Za-z0-9\-\s]+\<close>\<close>

definition section_pattern_upper :: regex where
  "section_pattern_upper = seq (lits ''SECTION'' @ section_tail)"

text \<open>\<^verbatim>\<open>Section\s+\d+[\.\d]*\s*[:\-]\s*[A-Z][A-Za-z0-9\-\s]+\<close>\<close>

definition section_pattern_title :: regex where
  "section_pattern_title = seq (lits ''Section'' @ section_tail)"

text \<open>\<^verbatim>\<open>ATA\s*(?:Chapter\s*)?\d{2}\<close>\<close>

definition ata_pattern :: regex where
  "ata_pattern =
     seq (lits ''ATA'' @
          [star Space, opt (seq (lits ''Chapter'' @ [star Space])), Repeat 2 (Some 2) Digit])"

text \<open>\<^verbatim>\<open>ATA\s*Chapter\s*\d{2}\<close>\<close>

definition ata_chapter_pattern :: regex where
  "ata_chapter_pattern =
     seq (lits ''ATA'' @ [star Space] @ lits ''Chapter'' @
          [star Space, Repeat 2 (Some 2) Digit])"

text \<open>\<^verbatim>\<open>ATA\s*\d{2}\<close>\<close>

definition ata_bare_pattern :: regex where
  "ata_bare_pattern = seq (lits ''ATA'' @ [star Space, Repeat 2 (Some 2) Digit])"

text \<open>\<^verbatim>\<open>\b([A-Z]{2,}-[A-Z0-9]{2,}[A-Z0-9\-]*)\b\<close>\<close>

definition part_pattern :: regex where
  "part_pattern =
     seq [Boundary, Repeat 2 None (CharSet [OneOf ascii_uppercase]), Lit CHR ''-'',
          Repeat 2 None (CharSet [OneOf ascii_uppercase, OneOf digits]),
          star (CharSet [OneOf ascii_uppercase, OneOf digits,
                         Single CHR ''-'']),
          Boundary]"

text \<open>
  The loop of \<^verbatim>\<open>infer_section\<close> and of \<^verbatim>\<open>infer_chapter\<close>: the patterns are searched
  in list order with \<^verbatim>\<open>re.IGNORECASE\<close>, the first one that matches anywhere returns its
  stripped match, and the empty string is returned when none matches.
\<close>

fun first_pattern_match :: "regex list \<Rightarrow> string \<Rightarrow> string" where
  "first_pattern_match [] text = []"
| "first_pattern_match (pattern # patterns) text =
     (case re_search pattern text True of
        Some m \<Rightarrow> str_strip m
      | None \<Rightarrow> first_pattern_match patterns text)"

definition infer_section :: "string \<Rightarrow> string" where
  "infer_section text =
     first_pattern_match [section_pattern_upper, section_pattern_title] text"

definition infer_chapter :: "string \<Rightarrow> string" where
  "infer_chapter text = first_pattern_match [ata_chapter_pattern, ata_bare_pattern] text"

definition infer_part_number :: "string \<Rightarrow> string" where
  "infer_part_number text =
     (case re_search part_pattern text False of Some m \<Rightarrow> m | None \<Rightarrow> [])"

text \<open>The dictionary that \<^verbatim>\<open>AviationManualProcessor.extract_metadata\<close> returns.\<close>

record metadata =
  meta_section :: string
  meta_ata_chapter :: string
  meta_part_number :: string

definition AviationManualProcessor_extract_metadata :: "string \<Rightarrow> metadata" where
  "AviationManualProcessor_extract_metadata text =
     (let section_match = re_search section_pattern_upper text True;
          section = (case section_match of Some m \<Rightarrow> str_strip m | None \<Rightarrow> []);
          ata_match = re_search ata_pattern text True;
          ata_chapter = (case ata_match of Some m \<Rightarrow> str_strip m | None \<Rightarrow> []);
          part_match = re_search part_pattern text False;
          part_number = (case part_match of Some m \<Rightarrow> m | None \<Rightarrow> [])
      in \<lparr>meta_section = section, meta_ata_chapter = ata_chapter,
          meta_part_number = part_number\<rparr>)"

section \<open>Ingestion pipelines\<close>

text \<open>
  The PDF reader, the embedding model, the identifier generator and the search engine
  are not part of the program. A run is given \<open>extracted\<close>, the result of
  \<^verbatim>\<open>page.extract_text()\<close> for every page of the file in page order (\<open>None\<close> for
  Python's \<^verbatim>\<open>None\<close>), \<open>encode\<close> for \<^verbatim>\<open>model.encode(chunk, ...).tolist()\<close>, and
  \<open>uuid4\<close>, where \<open>uuid4 n\<close> is the string of the identifier that the run draws after
  \<open>n\<close> earlier draws. What the run passes to \<^verbatim>\<open>helpers.bulk\<close> is part of its outcome.
\<close>

text \<open>An entry \<^verbatim>\<open>{"page": i, "text": text}\<close> of the page list.\<close>

record page_entry =
  page_number :: nat
  page_text :: string

text \<open>
  \<^verbatim>\<open>extract_text_by_page\<close> of \<^verbatim>\<open>ingest_aviation_manuals.py\<close>; the first argument of
  the loop is the page number that \<^verbatim>\<open>enumerate(reader.pages, start=1)\<close> has reached.
\<close>

fun extract_text_by_page_from :: "nat \<Rightarrow> string option list \<Rightarrow> page_entry list" where
  "extract_text_by_page_from i [] = []"
| "extract_text_by_page_from i (extracted # rest) =
     (let text = normalize (case extracted of None \<Rightarrow> [] | Some t \<Rightarrow> t)
      in (if text \<noteq> [] then [\<lparr>page_number = i, page_text = text\<rparr>] else [])
         @ extract_text_by_page_from (Suc i) rest)"

definition extract_text_by_page :: "string option list \<Rightarrow> page_entry list" where
  "extract_text_by_page extracted = extract_text_by_page_from 1 extracted"

text \<open>
  \<^verbatim>\<open>AviationManualProcessor.parse_pdf\<close>: the test \<^verbatim>\<open>if text:\<close> is on the text as
  extracted, before it is normalised.
\<close>

fun AviationManualProcessor_parse_pdf_from ::
  "nat \<Rightarrow> string option list \<Rightarrow> page_entry list" where
  "AviationManualProcessor_parse_pdf_from i [] = []"
| "AviationManualProcessor_parse_pdf_from i (extracted # rest) =
     (case extracted of
        None \<Rightarrow> []
      | Some text \<Rightarrow>
          if text \<noteq> [] then [\<lparr>page_number = i, page_text = normalize text\<rparr>] else [])
     @ AviationManualProcessor_parse_pdf_from (Suc i) rest"

definition AviationManualProcessor_parse_pdf :: "string option list \<Rightarrow> page_entry list" where
  "AviationManualProcessor_parse_pdf extracted =
     AviationManualProcessor_parse_pdf_from 1 extracted"

text \<open>
  A bulk action: \<^verbatim>\<open>_index\<close>, \<^verbatim>\<open>_id\<close> and the fields of \<^verbatim>\<open>_source\<close>. The field
  \<open>src_chapter\<close> is the key \<^verbatim>\<open>"chapter"\<close> of \<^verbatim>\<open>index_pdf\<close> and the key \<^verbatim>\<open>"ata_chapter"\<close>
  of \<^verbatim>\<open>process_manual\<close>.
\<close>

record ('i, 'e) es_document =
  es_index :: string
  es_id :: 'i
  src_content :: string
  src_section :: string
  src_chapter :: string
  src_part_number :: string
  src_manual_id :: string
  src_page :: nat
  src_embedding :: 'e

text \<open>
  The calls of a run in program order: \<open>InferMetadata n\<close> when the metadata extractors
  are applied to the text of page \<open>n\<close>, \<open>Encode n chunk\<close> when a chunk of page \<open>n\<close> is
  embedded and its document is built.
\<close>

datatype call = InferMetadata nat | Encode nat string

text \<open>What a Python function hands back to its caller.\<close>

datatype py_value = PyNone | PyInt int | PyTuple "py_value list"

text \<open>
  What a run does: the batch given to \<^verbatim>\<open>helpers.bulk\<close>, the numbers of pages and of
  chunks in the lines that it prints, the value that it returns, and its calls.
\<close>

record ('i, 'e) outcome =
  bulk :: "('i, 'e) es_document list"
  printed_pages :: nat
  printed_chunks :: nat
  returned :: py_value
  trace :: "call list"

definition INDEX_NAME :: string where
  "INDEX_NAME = ''aviation_manuals''"

text \<open>The loop variables of \<^verbatim>\<open>index_pdf\<close>, with the calls made so far.\<close>

record ('i, 'e) index_state =
  actions :: "('i, 'e) es_document list"
  chunk_count :: nat
  calls :: "call list"

text \<open>The body of \<^verbatim>\<open>for chunk in chunks\<close> in \<^verbatim>\<open>index_pdf\<close>.\<close>

definition index_chunk ::
  "(nat \<Rightarrow> 'i) \<Rightarrow> (string \<Rightarrow> 'e) \<Rightarrow> string \<Rightarrow> page_entry \<Rightarrow> string \<Rightarrow> string \<Rightarrow> string
     \<Rightarrow> ('i, 'e) index_state \<Rightarrow> string \<Rightarrow> ('i, 'e) index_state" where
  "index_chunk uuid4 encode manual p sec chap part st chunk =
     (let vec = encode chunk;
          doc = \<lparr>es_index = INDEX_NAME, es_id = uuid4 (length (actions st)),
                 src_content = chunk, src_section = sec, src_chapter = chap, src_part_number = part,
                 src_manual_id = manual, src_page = page_number p, src_embedding = vec\<rparr>
      in \<lparr>actions = actions st @ [doc], chunk_count = chunk_count st + 1,
          calls = calls st @ [Encode (page_number p) chunk]\<rparr>)"

text \<open>
  The body of \<^verbatim>\<open>for p in pages\<close> in \<^verbatim>\<open>index_pdf\<close>. It does not return when
  \<^verbatim>\<open>chunk_text\<close> does not.
\<close>

definition index_page ::
  "(nat \<Rightarrow> 'i) \<Rightarrow> (string \<Rightarrow> 'e) \<Rightarrow> string \<Rightarrow> ('i, 'e) index_state \<Rightarrow> page_entry
     \<Rightarrow> ('i, 'e) index_state option" where
  "index_page uuid4 encode manual st p =
     (let sec = infer_section (page_text p);
          chap = infer_chapter (page_text p);
          part = infer_part_number (page_text p);
          st1 = st\<lparr>calls := calls st @ [InferMetadata (page_number p)]\<rparr>
      in case chunk_text (page_text p) 800 120 of
           None \<Rightarrow> None
         | Some chunks \<Rightarrow>
             Some (foldl (index_chunk uuid4 encode manual p sec chap part) st1 chunks))"

fun index_pages ::
  "(nat \<Rightarrow> 'i) \<Rightarrow> (string \<Rightarrow> 'e) \<Rightarrow> string \<Rightarrow> ('i, 'e) index_state \<Rightarrow> page_entry list
     \<Rightarrow> ('i, 'e) index_state option" where
  "index_pages uuid4 encode manual st [] = Some st"
| "index_pages uuid4 encode manual st (p # ps) =
     (case index_page uuid4 encode manual st p of
        None \<Rightarrow> None
      | Some st' \<Rightarrow> index_pages uuid4 encode manual st' ps)"

text \<open>
  \<^verbatim>\<open>index_pdf\<close>. The function ends after its last \<^verbatim>\<open>print\<close>, so it returns
  \<^verbatim>\<open>None\<close>.
\<close>

definition index_pdf ::
  "(nat \<Rightarrow> 'i) \<Rightarrow> (string \<Rightarrow> 'e) \<Rightarrow> string option list \<Rightarrow> string
     \<Rightarrow> ('i, 'e) outcome option" where
  "index_pdf uuid4 encode extracted manual =
     (let pages = extract_text_by_page extracted
      in case index_pages uuid4 encode manual
                \<lparr>actions = [], chunk_count = 0, calls = []\<rparr> pages of
           None \<Rightarrow> None
         | Some st \<Rightarrow>
             Some \<lparr>bulk = actions st, printed_pages = length pages,
                   printed_chunks = chunk_count st, returned = PyNone,
                   trace = calls st\<rparr>)"

text \<open>The loop variable of \<^verbatim>\<open>process_manual\<close>, with the calls made so far.\<close>

record ('i, 'e) process_state =
  documents :: "('i, 'e) es_document list"
  process_calls :: "call list"

text \<open>The body of \<^verbatim>\<open>for chunk in chunks\<close> in \<^verbatim>\<open>process_manual\<close>.\<close>

definition process_chunk ::
  "(nat \<Rightarrow> 'i) \<Rightarrow> (string \<Rightarrow> 'e) \<Rightarrow> string \<Rightarrow> string \<Rightarrow> page_entry \<Rightarrow> metadata
     \<Rightarrow> ('i, 'e) process_state \<Rightarrow> string \<Rightarrow> ('i, 'e) process_state" where
  "process_chunk uuid4 encode index_name manual page_data meta st chunk =
     (let emb = encode chunk;
          doc = \<lparr>es_index = index_name, es_id = uuid4 (length (documents st)),
                 src_content = chunk, src_section = meta_section meta,
                 src_chapter = meta_ata_chapter meta, src_part_number = meta_part_number meta,
                 src_manual_id = manual, src_page = page_number page_data, src_embedding = emb\<rparr>
      in \<lparr>documents = documents st @ [doc],
          process_calls = process_calls st @ [Encode (page_number page_data) chunk]\<rparr>)"

text \<open>
  The body of \<^verbatim>\<open>for page_data in pages\<close> in \<^verbatim>\<open>process_manual\<close>; \<^verbatim>\<open>chunk_text\<close> is
  called with its default arguments.
\<close>

definition process_page ::
  "(nat \<Rightarrow> 'i) \<Rightarrow> (string \<Rightarrow> 'e) \<Rightarrow> string \<Rightarrow> string \<Rightarrow> ('i, 'e) process_state
     \<Rightarrow> page_entry \<Rightarrow> ('i, 'e) process_state option" where
  "process_page uuid4 encode index_name manual st page_data =
     (let meta = AviationManualProcessor_extract_metadata (page_text page_data);
          st1 = st\<lparr>process_calls :=
                     process_calls st @ [InferMetadata (page_number page_data)]\<rparr>
      in case AviationManualProcessor_chunk_text (page_text page_data) 800 120 of
           None \<Rightarrow> None
         | Some chunks \<Rightarrow>
             Some (foldl (process_chunk uuid4 encode index_name manual page_data meta)
                     st1 chunks))"

fun process_pages ::
  "(nat \<Rightarrow> 'i) \<Rightarrow> (string \<Rightarrow> 'e) \<Rightarrow> string \<Rightarrow> string \<Rightarrow> ('i, 'e) process_state
     \<Rightarrow> page_entry list \<Rightarrow> ('i, 'e) process_state option" where
  "process_pages uuid4 encode index_name manual st [] = Some st"
| "process_pages uuid4 encode index_name manual st (p # ps) =
     (case process_page uuid4 encode index_name manual st p of
        None \<Rightarrow> None
      | Some st' \<Rightarrow> process_pages uuid4 encode index_name manual st' ps)"

text \<open>
  \<^verbatim>\<open>AviationManualProcessor.process_manual\<close>, for a processor whose index is
  \<open>index_name\<close>. It ends after its last \<^verbatim>\<open>print\<close> and returns \<^verbatim>\<open>None\<close>.
\<close>

definition AviationManualProcessor_process_manual ::
  "(nat \<Rightarrow> 'i) \<Rightarrow> (string \<Rightarrow> 'e) \<Rightarrow> string \<Rightarrow> string option list \<Rightarrow> string
     \<Rightarrow> ('i, 'e) outcome option" where
  "AviationManualProcessor_process_manual uuid4 encode index_name extracted manual =
     (let pages = AviationManualProcessor_parse_pdf extracted
      in case process_pages uuid4 encode index_name manual
                \<lparr>documents = [], process_calls = []\<rparr> pages of
           None \<Rightarrow> None
         | Some st \<Rightarrow>
             Some \<lparr>bulk = documents st, printed_pages = length pages,
                   printed_chunks = length (documents st), returned = PyNone,
                   trace = process_calls st\<rparr>)"

text \<open>The pages to which a sequence of calls applies the metadata extractors, in order.\<close>

fun inferred_pages :: "call list \<Rightarrow> nat list" where
  "inferred_pages [] = []"
| "inferred_pages (InferMetadata n # tr) = n # inferred_pages tr"
| "inferred_pages (Encode n c # tr) = inferred_pages tr"

text \<open>
  Every chunk is processed after the metadata of its page has been extracted:
  \<open>inferred_before seen tr\<close> holds when each \<open>Encode n c\<close> in \<open>tr\<close> comes after an
  \<open>InferMetadata n\<close> in \<open>tr\<close>, or \<open>n\<close> is among the pages \<open>seen\<close> before \<open>tr\<close>.
\<close>

fun inferred_before :: "nat list \<Rightarrow> call list \<Rightarrow> bool" where
  "inferred_before seen [] = True"
| "inferred_before seen (InferMetadata n # tr) = inferred_before (n # seen) tr"
| "inferred_before seen (Encode n c # tr) = (n \<in> set seen \<and> inferred_before seen tr)"

text \<open>
  A document carries the number of page \<open>p\<close> and the metadata that \<^verbatim>\<open>index_pdf\<close>
  extracts from the text of \<open>p\<close>.
\<close>

definition from_page :: "page_entry \<Rightarrow> ('i, 'e) es_document \<Rightarrow> bool" where
  "from_page p d =
     (src_page d = page_number p \<and> src_section d = infer_section (page_text p)
      \<and> src_chapter d = infer_chapter (page_text p)
      \<and> src_part_number d = infer_part_number (page_text p))"

text \<open>The same for the metadata that \<^verbatim>\<open>process_manual\<close> extracts.\<close>

definition from_page_data :: "page_entry \<Rightarrow> ('i, 'e) es_document \<Rightarrow> bool" where
  "from_page_data p d =
     (src_page d = page_number p
      \<and> src_section d = meta_section (AviationManualProcessor_extract_metadata (page_text p))
      \<and> src_chapter d
          = meta_ata_chapter (AviationManualProcessor_extract_metadata (page_text p))
      \<and> src_part_number d
          = meta_part_number (AviationManualProcessor_extract_metadata (page_text p)))"

text \<open>The chunks of a page text under the default configuration.\<close>

definition default_chunks :: "string \<Rightarrow> string list" where
  "default_chunks text =
     (case chunk_text text 800 120 of Some chunks \<Rightarrow> chunks | None \<Rightarrow> [])"

text \<open>The page number and the content of each document that a page gives rise to.\<close>

definition page_chunks :: "page_entry \<Rightarrow> (nat \<times> string) list" where
  "page_chunks p = map (Pair (page_number p)) (default_chunks (page_text p))"

definition doc_key :: "('i, 'e) es_document \<Rightarrow> nat \<times> string" where
  "doc_key d = (src_page d, src_content d)"

text \<open>
  Sample inputs. A page of \<open>n\<close> one-letter words separated by single spaces; what
  a reader extracts from a manual of three pages whose second page has no text; and the
  same with a first page long enough for two chunks.
\<close>

definition page_of_words :: "nat \<Rightarrow> string" where
  "page_of_words n = join_space (replicate n ''w'')"

definition three_page_manual :: "string option list" where
  "three_page_manual = [Some (page_of_words 51), Some [], Some (page_of_words 51)]"

definition long_page_manual :: "string option list" where
  "long_page_manual = [Some (page_of_words 801), Some [], Some (page_of_words 51)]"

section \<open>Splitting, joining and normalising\<close>

lemma isspace_space: "isspace (CHR '' '')"
  by (simp add: isspace_def whitespace_chars_def)

lemma split_acc_nonspace:
  "\<forall>c \<in> set u. \<not> isspace c \<Longrightarrow> split_acc w (u @ rest) = split_acc (w @ u) rest"
  by (induction u arbitrary: w) auto

lemma split_acc_words:
  "\<forall>c \<in> set w. \<not> isspace c \<Longrightarrow> \<forall>x \<in> set (split_acc w s). is_word x"
proof (induction s arbitrary: w)
  case Nil
  then show ?case by (simp add: is_word_def list_all_iff)
next
  case (Cons c cs)
  show ?case
  proof (cases "isspace c")
    case True
    then show ?thesis using Cons.IH[of "[]"] Cons.prems by (simp add: is_word_def list_all_iff)
  next
    case False
    then show ?thesis using Cons.IH[of "w @ [c]"] Cons.prems by simp
  qed
qed

lemma str_split_words: "x \<in> set (str_split s) \<Longrightarrow> is_word x"
  using split_acc_words[of "[]" s] by (simp add: str_split_def)

lemma str_split_join:
  "\<forall>x \<in> set ws. is_word x \<Longrightarrow> str_split (join_space ws) = ws"
proof (induction ws rule: join_space.induct)
  case 1
  then show ?case by (simp add: str_split_def)
next
  case (2 w)
  then show ?case
    using split_acc_nonspace[of w "[]" "[]"] by (simp add: str_split_def is_word_def list_all_iff)
next
  case (3 w v ws)
  then have "split_acc [] (w @ CHR '' '' # join_space (v # ws)) = split_acc w (CHR '' '' # join_space (v # ws))"
    using split_acc_nonspace[of w "[]"] by (simp add: is_word_def list_all_iff)
  with 3 show ?case
    by (simp add: str_split_def is_word_def list_all_iff isspace_space)
qed

lemma set_py_slice: "set (py_slice xs i j) \<subseteq> set xs"
  unfolding py_slice_def Let_def
  by (meson set_take_subset set_drop_subset subset_trans)

lemma str_split_chunk:
  "str_split (join_space (py_slice (str_split t) i j)) = py_slice (str_split t) i j"
proof (rule str_split_join)
  show "\<forall>x \<in> set (py_slice (str_split t) i j). is_word x"
    using set_py_slice[of "str_split t" i j] str_split_words[of _ t] by blast
qed

lemma py_slice_all: "py_slice xs 0 (int (length xs)) = xs"
  by (simp add: py_slice_def slice_bound_def)

lemma length_py_slice:
  "0 \<le> i \<Longrightarrow> i \<le> j \<Longrightarrow> j \<le> int (length xs) \<Longrightarrow> length (py_slice xs i j) = nat (j - i)"
  by (simp add: py_slice_def slice_bound_def)

lemma no_adjacent_ws_Cons:
  "no_adjacent_ws (x # ys) = ((ys = [] \<or> \<not> (isspace x \<and> isspace (hd ys))) \<and> no_adjacent_ws ys)"
  by (cases ys) auto

lemma re_sub_ws_only_space: "c \<in> set (re_sub_ws s) \<Longrightarrow> isspace c \<Longrightarrow> c = CHR '' ''"
  by (induction s rule: re_sub_ws.induct) (auto split: if_splits)

lemma hd_dropWhile_re_sub:
  "re_sub_ws (dropWhile isspace cs) = [] \<or> \<not> isspace (hd (re_sub_ws (dropWhile isspace cs)))"
proof (cases "dropWhile isspace cs")
  case Nil
  show ?thesis unfolding Nil by simp
next
  case (Cons d ds)
  then have "\<not> isspace d" using hd_dropWhile[of isspace cs] by auto
  then show ?thesis unfolding Cons by simp
qed

lemma re_sub_ws_no_adjacent: "no_adjacent_ws (re_sub_ws s)"
proof (induction s rule: re_sub_ws.induct)
  case 1
  then show ?case by simp
next
  case (2 c cs)
  show ?case
  proof (cases "isspace c")
    case True
    then show ?thesis using 2 hd_dropWhile_re_sub[of cs]
      by (auto simp: no_adjacent_ws_Cons)
  next
    case False
    then show ?thesis using 2 by (auto simp: no_adjacent_ws_Cons)
  qed
qed

lemma re_sub_ws_fixed:
  "\<forall>c \<in> set t. isspace c \<longrightarrow> c = CHR '' '' \<Longrightarrow> no_adjacent_ws t \<Longrightarrow> re_sub_ws t = t"
proof (induction t rule: re_sub_ws.induct)
  case 1
  then show ?case by simp
next
  case (2 c cs)
  show ?case
  proof (cases "isspace c")
    case True
    then have "dropWhile isspace cs = cs" using 2(4) by (cases cs) auto
    then show ?thesis using 2 True by (auto simp: no_adjacent_ws_Cons)
  next
    case False
    then show ?thesis using 2 by (auto simp: no_adjacent_ws_Cons)
  qed
qed

lemma no_adjacent_ws_append:
  "no_adjacent_ws (a @ b) \<Longrightarrow> no_adjacent_ws a \<and> no_adjacent_ws b"
proof (induction a rule: no_adjacent_ws.induct)
  case 1
  then show ?case by simp
next
  case (2 c)
  then show ?case by (simp add: no_adjacent_ws_Cons)
next
  case (3 a b cs)
  then show ?case by simp
qed

lemma str_strip_infix: "\<exists>a b. s = a @ str_strip s @ b"
proof -
  have 1: "s = takeWhile isspace s @ dropWhile isspace s" by simp
  have "rev (dropWhile isspace s) = takeWhile isspace (rev (dropWhile isspace s)) @ dropWhile isspace (rev (dropWhile isspace s))"
    by simp
  then have "dropWhile isspace s = str_strip s @ rev (takeWhile isspace (rev (dropWhile isspace s)))"
    unfolding str_strip_def by (metis rev_append rev_rev_ident)
  with 1 show ?thesis by metis
qed

lemma str_strip_no_adjacent: "no_adjacent_ws s \<Longrightarrow> no_adjacent_ws (str_strip s)"
  using str_strip_infix[of s] no_adjacent_ws_append by metis

lemma set_str_strip: "set (str_strip s) \<subseteq> set s"
  using str_strip_infix[of s] by (metis Un_upper1 Un_upper2 set_append subset_trans)

lemma str_strip_idem: "str_strip (str_strip s) = str_strip s"
proof -
  let ?A = "dropWhile isspace s"
  let ?B = "str_strip s"
  have B: "?B = rev (dropWhile isspace (rev ?A))" by (simp add: str_strip_def)
  have "dropWhile isspace ?B = ?B"
  proof (cases "?B")
    case Nil
    then show ?thesis by simp
  next
    case (Cons b bs)
    have "\<exists>z. ?A = ?B @ z"
      by (metis B append_take_drop_id rev_append rev_rev_ident takeWhile_dropWhile_id)
    then obtain z where "?A = b # bs @ z" using Cons by auto
    then have "\<not> isspace b" using hd_dropWhile[of isspace s] by auto
    with Cons show ?thesis by simp
  qed
  then have "str_strip ?B = rev (dropWhile isspace (rev ?B))" by (simp add: str_strip_def)
  also have "\<dots> = rev (dropWhile isspace (dropWhile isspace (rev ?A)))" by (simp add: B)
  also have "\<dots> = ?B" by (simp add: B)
  finally show ?thesis .
qed

lemma normalize_idem: "normalize (normalize t) = normalize t"
proof -
  have a: "\<forall>c \<in> set (normalize t). isspace c \<longrightarrow> c = CHR '' ''"
    using set_str_strip[of "re_sub_ws t"] re_sub_ws_only_space[of _ t]
    unfolding normalize_def by blast
  have b: "no_adjacent_ws (normalize t)"
    unfolding normalize_def by (rule str_strip_no_adjacent) (rule re_sub_ws_no_adjacent)
  have "re_sub_ws (normalize t) = normalize t"
    using a b by (rule re_sub_ws_fixed)
  then have "normalize (normalize t) = str_strip (normalize t)"
    by (simp add: normalize_def[of "normalize t"])
  also have "\<dots> = normalize t"
    unfolding normalize_def by (rule str_strip_idem)
  finally show ?thesis .
qed

section \<open>The chunking loop\<close>

lemma loop_sub1:
  "AviationManualProcessor_chunk_text_loop ws m ov s cs = Some y \<Longrightarrow> chunk_text_loop ws m ov s cs = Some y"
proof (induction rule: AviationManualProcessor_chunk_text_loop.raw_induct[rotated 1, consumes 1])
  case (1 f ws m ov s cs y)
  then show ?case
    by (subst chunk_text_loop.simps) (auto simp: Let_def split: if_splits)
qed

lemma loop_sub2:
  "chunk_text_loop ws m ov s cs = Some y \<Longrightarrow> AviationManualProcessor_chunk_text_loop ws m ov s cs = Some y"
proof (induction rule: chunk_text_loop.raw_induct[rotated 1, consumes 1])
  case (1 f ws m ov s cs y)
  then show ?case
    by (subst AviationManualProcessor_chunk_text_loop.simps) (auto simp: Let_def split: if_splits)
qed

lemma loops_eq: "AviationManualProcessor_chunk_text_loop ws m ov s cs = chunk_text_loop ws m ov s cs"
proof (cases "chunk_text_loop ws m ov s cs")
  case None
  then show ?thesis using loop_sub1[of ws m ov s cs]
    by (cases "AviationManualProcessor_chunk_text_loop ws m ov s cs") auto
next
  case (Some y)
  then show ?thesis using loop_sub2 by simp
qed

lemma chunk_texts_eq: "AviationManualProcessor_chunk_text t m ov = chunk_text t m ov"
  by (simp add: AviationManualProcessor_chunk_text_def chunk_text_def loops_eq)

lemma loop_step_continue:
  assumes "start < int (length ws)" "start + m < int (length ws)"
  shows "chunk_text_loop ws m ov start chunks
           = chunk_text_loop ws m ov (start + m - ov) (chunks @ [cut ws (start, start + m)])"
    and "chunk_spans (length ws) m ov start spans
           = chunk_spans (length ws) m ov (start + m - ov) (spans @ [(start, start + m)])"
  using assms
  by (subst chunk_text_loop.simps, simp add: Let_def min_def cut_def,
      subst chunk_spans.simps, simp add: Let_def min_def)

lemma loop_step_last:
  assumes "start < int (length ws)" "int (length ws) \<le> start + m"
  shows "chunk_text_loop ws m ov start chunks = Some (chunks @ [cut ws (start, int (length ws))])"
    and "chunk_spans (length ws) m ov start spans = Some (spans @ [(start, int (length ws))])"
  using assms
  by (subst chunk_text_loop.simps, simp add: Let_def min_def cut_def,
      subst chunk_spans.simps, simp add: Let_def min_def)

lemma loop_step_exit:
  assumes "\<not> start < int (length ws)"
  shows "chunk_text_loop ws m ov start chunks = Some chunks"
    and "chunk_spans (length ws) m ov start spans = Some spans"
  using assms
  by (subst chunk_text_loop.simps, simp, subst chunk_spans.simps, simp)

lemma loop_total:
  assumes "ov < m"
  shows "\<exists>rs. chunk_spans (length ws) m ov start spans = Some (spans @ rs)
           \<and> chunk_text_loop ws m ov start chunks = Some (chunks @ map (cut ws) rs)
           \<and> sorted_wrt (<) (map fst rs)
           \<and> (\<forall>r \<in> set rs. start \<le> fst r \<and> fst r < int (length ws))"
proof (induction "nat (int (length ws) - start)" arbitrary: start spans chunks rule: less_induct)
  case less
  consider (exit) "\<not> start < int (length ws)"
    | (last) "start < int (length ws)" "int (length ws) \<le> start + m"
    | (continue) "start < int (length ws)" "start + m < int (length ws)"
    by linarith
  then show ?case
  proof cases
    case exit
    then show ?thesis by (simp add: loop_step_exit)
  next
    case last
    then show ?thesis by (simp add: loop_step_last)
  next
    case continue
    let ?s = "start + m - ov"
    have adv: "start < ?s" using assms by simp
    then have "nat (int (length ws) - ?s) < nat (int (length ws) - start)"
      using continue by simp
    from less[OF this, of "spans @ [(start, start + m)]" "chunks @ [cut ws (start, start + m)]"]
    obtain rs where rs:
      "chunk_spans (length ws) m ov ?s (spans @ [(start, start + m)])
         = Some ((spans @ [(start, start + m)]) @ rs)"
      "chunk_text_loop ws m ov ?s (chunks @ [cut ws (start, start + m)])
         = Some ((chunks @ [cut ws (start, start + m)]) @ map (cut ws) rs)"
      "sorted_wrt (<) (map fst rs)"
      "\<forall>r \<in> set rs. ?s \<le> fst r \<and> fst r < int (length ws)"
      by blast
    let ?rs = "(start, start + m) # rs"
    have 1: "chunk_spans (length ws) m ov start spans = Some (spans @ ?rs)"
      using rs(1) by (simp add: loop_step_continue(2)[OF continue])
    have 2: "chunk_text_loop ws m ov start chunks = Some (chunks @ map (cut ws) ?rs)"
      using rs(2) by (simp add: loop_step_continue(1)[OF continue])
    have 3: "sorted_wrt (<) (map fst ?rs)"
      using rs(3,4) adv by auto
    have 4: "\<forall>r \<in> set ?rs. start \<le> fst r \<and> fst r < int (length ws)"
      using rs(4) adv continue by auto
    show ?thesis using 1 2 3 4 by blast
  qed
qed

lemma loop_diverges_aux:
  "chunk_text_loop ws m ov s cs = Some y \<Longrightarrow>
     \<not> (m \<le> ov \<and> s \<le> 0 \<and> m < int (length ws) \<and> 0 < length ws)"
proof (induction rule: chunk_text_loop.raw_induct[rotated 1, consumes 1])
  case (1 f ws m ov s cs y)
  show ?case
  proof
    assume c: "m \<le> ov \<and> s \<le> 0 \<and> m < int (length ws) \<and> 0 < length ws"
    then have lt: "s < int (length ws)" "s + m < int (length ws)" by (cases ws; simp)+
    then have "f ws m ov (s + m - ov) (cs @ [join_space (py_slice ws s (s + m))]) = Some y"
      using 1(2) by (simp add: Let_def min_def)
    from 1(1)[OF this] c show False by auto
  qed
qed

lemma loop_diverges:
  "m \<le> ov \<Longrightarrow> m < int (length ws) \<Longrightarrow> 0 < length ws \<Longrightarrow> chunk_text_loop ws m ov 0 [] = None"
  using loop_diverges_aux[of ws m ov 0 "[]"] by (cases "chunk_text_loop ws m ov 0 []") auto

lemma loop_returns_iff:
  "chunk_text_loop ws m ov 0 [] = None \<longleftrightarrow> (m \<le> ov \<and> m < int (length ws) \<and> 0 < length ws)"
proof
  assume n: "chunk_text_loop ws m ov 0 [] = None"
  show "m \<le> ov \<and> m < int (length ws) \<and> 0 < length ws"
  proof (rule ccontr)
    assume "\<not> ?thesis"
    then consider "ov < m" | "int (length ws) \<le> m" "0 < length ws" | "length ws = 0" by fastforce
    then show False
    proof cases
      case 1
      from loop_total[OF this, of ws 0 "[]" "[]"] n show False by auto
    next
      case 2
      then show False using n loop_step_last(1)[of 0 ws m ov "[]"] by simp
    next
      case 3
      then show False using n loop_step_exit(1)[of 0 ws m ov "[]"] by simp
    qed
  qed
next
  assume "m \<le> ov \<and> m < int (length ws) \<and> 0 < length ws"
  then show "chunk_text_loop ws m ov 0 [] = None" using loop_diverges by blast
qed

lemma ceil_div_step: "0 < d \<Longrightarrow> ceil_div x d = 1 + ceil_div (x - d) d"
proof -
  assume d: "0 < d"
  have "- (x - d) = - x + d" by simp
  then have "(- (x - d)) div d = (- x) div d + 1"
    using d div_add_self2[of d "- x"] by (simp only:)
  then show ?thesis by (simp only: ceil_div_def)
qed

lemma ceil_div_one: "0 < y \<Longrightarrow> y \<le> d \<Longrightarrow> ceil_div y d = 1"
proof -
  assume y: "0 < y" "y \<le> d"
  have "(- y) div d = y div (- d)" by (rule div_minus_right[symmetric])
  also have "\<dots> = - 1" using y by (intro div_pos_neg_trivial) auto
  finally show ?thesis by (simp add: ceil_div_def)
qed

lemma ceil_div_ceiling: "ceil_div a b = \<lceil>real_of_int a / real_of_int b\<rceil>"
  by (simp add: ceil_div_def ceiling_divide_eq_div)

lemma spans_step_continue:
  "start < int len \<Longrightarrow> start + m < int len \<Longrightarrow>
   chunk_spans len m ov start spans = chunk_spans len m ov (start + m - ov) (spans @ [(start, start + m)])"
  by (subst chunk_spans.simps) (simp add: Let_def min_def)

lemma spans_step_last:
  "start < int len \<Longrightarrow> int len \<le> start + m \<Longrightarrow>
   chunk_spans len m ov start spans = Some (spans @ [(start, int len)])"
  by (subst chunk_spans.simps) (simp add: Let_def min_def)

lemma spans_regular:
  assumes "0 \<le> ov" "ov < m" "0 \<le> start" "start < int len"
  shows "\<exists>rs. chunk_spans len m ov start spans = Some (spans @ rs)
           \<and> rs \<noteq> [] \<and> hd rs = (start, min (start + m) (int len))
           \<and> int (length rs) = (if int len - start \<le> m then 1 else ceil_div (int len - start - ov) (m - ov))
           \<and> (\<forall>i. i + 1 < length rs \<longrightarrow> span_overlap (rs ! i) (rs ! (i + 1)) = ov)
           \<and> (\<forall>r \<in> set rs. 0 \<le> fst r \<and> fst r < snd r \<and> snd r \<le> int len)"
  using assms(3,4)
proof (induction "nat (int len - start)" arbitrary: start spans rule: less_induct)
  case less
  show ?case
  proof (cases "int len \<le> start + m")
    case True
    have "chunk_spans len m ov start spans = Some (spans @ [(start, int len)])"
      using less.prems True by (simp add: spans_step_last)
    moreover have "min (start + m) (int len) = int len" using True by simp
    moreover have "int len - start \<le> m" using True by simp
    ultimately show ?thesis using less.prems by (intro exI[of _ "[(start, int len)]"]) simp
  next
    case False
    let ?s = "start + m - ov"
    let ?d = "m - ov"
    have d: "0 < ?d" using assms by simp
    have s: "0 \<le> ?s" "?s < int len" "start < ?s" using assms less.prems False by auto
    then have "nat (int len - ?s) < nat (int len - start)" by simp
    from less.hyps[OF this s(1,2), of "spans @ [(start, start + m)]"]
    obtain rs where rs:
      "chunk_spans len m ov ?s (spans @ [(start, start + m)]) = Some ((spans @ [(start, start + m)]) @ rs)"
      "rs \<noteq> []" "hd rs = (?s, min (?s + m) (int len))"
      "int (length rs) = (if int len - ?s \<le> m then 1 else ceil_div (int len - ?s - ov) ?d)"
      "\<forall>i. i + 1 < length rs \<longrightarrow> span_overlap (rs ! i) (rs ! (i + 1)) = ov"
      "\<forall>r \<in> set rs. 0 \<le> fst r \<and> fst r < snd r \<and> snd r \<le> int len"
      by blast
    let ?rs = "(start, start + m) # rs"
    have 1: "chunk_spans len m ov start spans = Some (spans @ ?rs)"
      using rs(1) less.prems False by (simp add: spans_step_continue)
    have 2: "hd ?rs = (start, min (start + m) (int len))" using False by simp
    have 3: "int (length ?rs) = (if int len - start \<le> m then 1 else ceil_div (int len - start - ov) ?d)"
    proof -
      let ?x = "int len - start - ov"
      have x: "ceil_div ?x ?d = 1 + ceil_div (?x - ?d) ?d" using d by (rule ceil_div_step)
      have eq: "int len - ?s - ov = ?x - ?d" by simp
      show ?thesis
      proof (cases "int len - ?s \<le> m")
        case True
        then have "ceil_div (?x - ?d) ?d = 1" using s(2) assms False by (intro ceil_div_one) auto
        then show ?thesis using rs(4) True False x by simp
      next
        case F: False
        then show ?thesis using rs(4) False x eq by simp
      qed
    qed
    have first: "span_overlap (start, start + m) (hd rs) = ov"
      using rs(3) assms False by (simp add: span_overlap_def)
    have 4: "\<forall>i. i + 1 < length ?rs \<longrightarrow> span_overlap (?rs ! i) (?rs ! (i + 1)) = ov"
    proof (intro allI impI)
      fix i assume i: "i + 1 < length ?rs"
      show "span_overlap (?rs ! i) (?rs ! (i + 1)) = ov"
      proof (cases i)
        case 0
        then show ?thesis using first rs(2) by (simp add: hd_conv_nth)
      next
        case (Suc j)
        then show ?thesis using rs(5) i by simp
      qed
    qed
    have 5: "\<forall>r \<in> set ?rs. 0 \<le> fst r \<and> fst r < snd r \<and> snd r \<le> int len"
      using rs(6) less.prems False assms by auto
    show ?thesis using 1 2 3 4 5 by blast
  qed
qed

section \<open>Properties of chunking and normalisation\<close>

lemma chunk_text_total:
  assumes "ov < m"
  shows "\<exists>chunks. chunk_text t m ov = Some chunks"
  using loop_total[OF assms, of "str_split t" 0 "[]" "[]"] by (auto simp: chunk_text_def)

lemma sorted_starts_bound:
  assumes "sorted_wrt (<) (map fst rs)" "\<forall>r \<in> set rs. (0::int) \<le> fst r \<and> fst r < int n"
  shows "length rs \<le> n"
proof -
  have d: "distinct (map fst rs)" using assms(1) strict_sorted_iff by blast
  have "set (map fst rs) \<subseteq> {0..<int n}" using assms(2) by auto
  then have "card (set (map fst rs)) \<le> card {0..<int n}" by (intro card_mono) auto
  then show ?thesis using distinct_card[OF d] by simp
qed

text \<open>
  Claim C10. The method \<^verbatim>\<open>chunk_text\<close> of \<^verbatim>\<open>aviation_manual_processor.py\<close> and the
  function \<^verbatim>\<open>chunk_text\<close> of \<^verbatim>\<open>ingest_aviation_manuals.py\<close> are extensionally equal:
  for every text, every maximum and every overlap both return the same list of chunks,
  and where one does not return, neither does the other.
\<close>

theorem chunk_text_implementations_agree:
  "AviationManualProcessor_chunk_text text max_words overlap = chunk_text text max_words overlap"
  by (rule chunk_texts_eq)

text \<open>
  Claim C5. For every string \<open>T\<close>, normalisation is idempotent and its result never
  contains two consecutive whitespace characters.
\<close>

theorem normalize_idempotent_single_spaced:
  "normalize (normalize T) = normalize T \<and> no_adjacent_ws (normalize T)"
proof
  show "normalize (normalize T) = normalize T" by (rule normalize_idem)
  show "no_adjacent_ws (normalize T)"
    unfolding normalize_def by (rule str_strip_no_adjacent) (rule re_sub_ws_no_adjacent)
qed

text \<open>
  An instance of claim C5: a text with leading, trailing and repeated whitespace of
  several kinds.
\<close>

theorem normalize_idempotent_single_spaced_witness:
  "normalize (normalize [CHR '' '', CHR ''a'', CHR 0x09, CHR 0x0A, CHR ''b'', CHR '' ''])
     = normalize [CHR '' '', CHR ''a'', CHR 0x09, CHR 0x0A, CHR ''b'', CHR '' '']
   \<and> no_adjacent_ws (normalize [CHR '' '', CHR ''a'', CHR 0x09, CHR 0x0A, CHR ''b'', CHR '' ''])
   \<and> normalize [CHR '' '', CHR ''a'', CHR 0x09, CHR 0x0A, CHR ''b'', CHR '' ''] = ''a b''"
  using normalize_idempotent_single_spaced
          [of "[CHR '' '', CHR ''a'', CHR 0x09, CHR 0x0A, CHR ''b'', CHR '' '']"]
  by (simp add: normalize_def str_strip_def isspace_def whitespace_chars_def)

text \<open>
  Claim C2. For every text and every configuration with \<open>overlap < max_words\<close>,
  \<^verbatim>\<open>chunk_text\<close> returns. The start positions of the emitted word ranges increase
  strictly from one iteration to the next, so the loop emits at most as many chunks as
  the text has words.
\<close>

theorem chunk_text_terminates:
  assumes "overlap < max_words"
  shows "(\<exists>chunks. chunk_text text max_words overlap = Some chunks
            \<and> AviationManualProcessor_chunk_text text max_words overlap = Some chunks)
       \<and> (\<exists>spans. chunk_spans (length (str_split text)) max_words overlap 0 [] = Some spans
            \<and> chunk_text_loop (str_split text) max_words overlap 0 []
                = Some (map (cut (str_split text)) spans)
            \<and> sorted_wrt (<) (map fst spans)
            \<and> length spans \<le> length (str_split text))"
proof
  show "\<exists>chunks. chunk_text text max_words overlap = Some chunks
            \<and> AviationManualProcessor_chunk_text text max_words overlap = Some chunks"
    using chunk_text_total[OF assms] by (simp add: chunk_texts_eq)
  from loop_total[OF assms, of "str_split text" 0 "[]" "[]"]
  obtain rs where rs:
    "chunk_spans (length (str_split text)) max_words overlap 0 [] = Some rs"
    "chunk_text_loop (str_split text) max_words overlap 0 [] = Some (map (cut (str_split text)) rs)"
    "sorted_wrt (<) (map fst rs)"
    "\<forall>r \<in> set rs. 0 \<le> fst r \<and> fst r < int (length (str_split text))"
    by auto
  have "length rs \<le> length (str_split text)" using rs(3,4) by (rule sorted_starts_bound)
  with rs show "\<exists>spans. chunk_spans (length (str_split text)) max_words overlap 0 [] = Some spans
            \<and> chunk_text_loop (str_split text) max_words overlap 0 []
                = Some (map (cut (str_split text)) spans)
            \<and> sorted_wrt (<) (map fst spans)
            \<and> length spans \<le> length (str_split text)" by blast
qed

text \<open>
  An instance of claim C2: three words, at most two words per chunk, an overlap of one.
\<close>

theorem chunk_text_terminates_witness:
  "(1::int) < 2
   \<and> chunk_text ''a b c'' 2 1 = Some []
   \<and> chunk_spans 3 2 1 0 [] = Some [(0, 2), (1, 3)]
   \<and> chunk_text_loop [''a'', ''b'', ''c''] 2 1 0 [] = Some [''a b'', ''b c'']
   \<and> (\<exists>chunks. chunk_text ''a b c'' 2 1 = Some chunks
            \<and> AviationManualProcessor_chunk_text ''a b c'' 2 1 = Some chunks)
   \<and> (\<exists>spans. chunk_spans (length (str_split ''a b c'')) 2 1 0 [] = Some spans
            \<and> chunk_text_loop (str_split ''a b c'') 2 1 0 []
                = Some (map (cut (str_split ''a b c'')) spans)
            \<and> sorted_wrt (<) (map fst spans)
            \<and> length spans \<le> length (str_split ''a b c''))"
proof -
  have h: "(1::int) < 2" by simp
  have e1: "chunk_text ''a b c'' 2 1 = Some []" by code_simp
  have e2: "chunk_spans 3 2 1 0 [] = Some [(0, 2), (1, 3)]" by code_simp
  have e3: "chunk_text_loop [''a'', ''b'', ''c''] 2 1 0 [] = Some [''a b'', ''b c'']"
    by code_simp
  from h e1 e2 e3 chunk_text_terminates[OF h, of "''a b c''"] show ?thesis by blast
qed

lemma chunk_text_None_iff:
  "chunk_text text m ov = None \<longleftrightarrow>
     (m \<le> ov \<and> m < int (length (str_split text)) \<and> 0 < length (str_split text))"
  by (simp add: chunk_text_def loop_returns_iff)

text \<open>
  Claim C3, as the code has it. \<^verbatim>\<open>chunk_text\<close> has no failure path and rejects no
  configuration: it returns a list for every input, except that it does not terminate
  when \<open>overlap \<ge> max_words\<close> and the text has at least one word and more than
  \<open>max_words\<close> words. A result of the model is either \<open>Some\<close> list or \<open>None\<close> for a
  loop that runs forever; the source raises nowhere.
\<close>

theorem chunk_text_never_rejects:
  "(chunk_text text max_words overlap = None) =
     (max_words \<le> overlap \<and> max_words < int (length (str_split text))
      \<and> 0 < length (str_split text))
   \<and> (AviationManualProcessor_chunk_text text max_words overlap = None) =
     (max_words \<le> overlap \<and> max_words < int (length (str_split text))
      \<and> 0 < length (str_split text))"
  by (simp only: chunk_texts_eq chunk_text_None_iff)

text \<open>
  Claim C3 fails as stated. With \<open>max_words = overlap = 1\<close> the call is not rejected:
  on a one-word text the loop emits a chunk and \<^verbatim>\<open>chunk_text\<close> returns normally, and on
  a two-word text it does not terminate.
\<close>

theorem invalid_configuration_counterexample:
  "chunk_text_loop (str_split ''a'') 1 1 0 [] = Some [''a'']
   \<and> chunk_text ''a'' 1 1 = Some []
   \<and> chunk_text ''a b'' 1 1 = None"
proof -
  have 1: "chunk_text_loop (str_split ''a'') 1 1 0 [] = Some [''a'']" by code_simp
  have 2: "chunk_text ''a'' 1 1 = Some []" by code_simp
  have s: "str_split ''a b'' = [''a'', ''b'']"
    by (simp add: str_split_def isspace_def whitespace_chars_def)
  have 3: "chunk_text ''a b'' 1 1 = None"
    by (simp add: chunk_text_None_iff s)
  from 1 2 3 show ?thesis by simp
qed

text \<open>
  Claim C1, as the code has it. For a text of \<open>L\<close> words and
  \<open>0 \<le> overlap < max_words\<close>, the loop of \<^verbatim>\<open>chunk_text\<close> generates, before the final
  filter, exactly \<open>\<lceil>(L - overlap) / (max_words - overlap)\<rceil>\<close> chunks when \<open>L > max_words\<close>,
  exactly one chunk when \<open>1 \<le> L \<le> max_words\<close>, and no chunk when \<open>L = 0\<close>. Chunk \<open>i\<close>
  is the words of the range \<open>spans ! i\<close> joined by single spaces, every range lies
  within the text and is not empty, and the ranges of every pair of consecutive chunks,
  except possibly the last pair, have exactly \<open>overlap\<close> word positions in common. (By
  \<open>spans_regular\<close> the last pair has, too.)
\<close>

theorem chunk_count_and_overlap:
  assumes "0 \<le> overlap" "overlap < max_words"
  shows "(str_split text = [] \<longrightarrow>
            chunk_text_loop (str_split text) max_words overlap 0 [] = Some []
          \<and> AviationManualProcessor_chunk_text_loop (str_split text) max_words overlap 0 []
              = Some [])
       \<and> (str_split text \<noteq> [] \<longrightarrow>
            (\<exists>spans.
               chunk_spans (length (str_split text)) max_words overlap 0 [] = Some spans
             \<and> chunk_text_loop (str_split text) max_words overlap 0 []
                 = Some (map (cut (str_split text)) spans)
             \<and> AviationManualProcessor_chunk_text_loop (str_split text) max_words overlap 0 []
                 = Some (map (cut (str_split text)) spans)
             \<and> int (length spans)
                 = (if int (length (str_split text)) > max_words
                    then \<lceil>real_of_int (int (length (str_split text)) - overlap)
                           / real_of_int (max_words - overlap)\<rceil>
                    else 1)
             \<and> (\<forall>i. i + 2 < length spans \<longrightarrow>
                    span_overlap (spans ! i) (spans ! (i + 1)) = overlap)
             \<and> list_all (\<lambda>r. 0 \<le> fst r \<and> fst r < snd r
                              \<and> snd r \<le> int (length (str_split text))) spans))"
proof (intro conjI impI)
  assume e: "str_split text = []"
  show "chunk_text_loop (str_split text) max_words overlap 0 [] = Some []"
    unfolding e by (simp add: loop_step_exit(1))
  then show "AviationManualProcessor_chunk_text_loop (str_split text) max_words overlap 0 []
               = Some []"
    by (simp only: loops_eq)
next
  let ?ws = "str_split text"
  assume ne: "?ws \<noteq> []"
  then have pos: "(0::int) < int (length ?ws)" by simp
  from spans_regular[OF assms(1,2) order_refl pos, of "[]"]
  obtain rs where rs:
    "chunk_spans (length ?ws) max_words overlap 0 [] = Some rs"
    "int (length rs) = (if int (length ?ws) - 0 \<le> max_words then 1
                        else ceil_div (int (length ?ws) - 0 - overlap) (max_words - overlap))"
    "\<forall>i. i + 1 < length rs \<longrightarrow> span_overlap (rs ! i) (rs ! (i + 1)) = overlap"
    "\<forall>r \<in> set rs. 0 \<le> fst r \<and> fst r < snd r \<and> snd r \<le> int (length ?ws)"
    by auto
  from loop_total[OF assms(2), of ?ws 0 "[]" "[]"] rs(1)
  have loop: "chunk_text_loop ?ws max_words overlap 0 [] = Some (map (cut ?ws) rs)"
    by auto
  have cnt: "int (length rs)
             = (if int (length ?ws) > max_words
                then \<lceil>real_of_int (int (length ?ws) - overlap)
                       / real_of_int (max_words - overlap)\<rceil>
                else 1)"
    using rs(2) by (simp add: ceil_div_ceiling)
  have ov: "\<forall>i. i + 2 < length rs \<longrightarrow> span_overlap (rs ! i) (rs ! (i + 1)) = overlap"
    using rs(3) by simp
  have rng: "list_all (\<lambda>r. 0 \<le> fst r \<and> fst r < snd r \<and> snd r \<le> int (length ?ws)) rs"
    using rs(4) by (simp add: list_all_iff)
  from rs(1) loop cnt ov rng
  show "\<exists>spans.
               chunk_spans (length ?ws) max_words overlap 0 [] = Some spans
             \<and> chunk_text_loop ?ws max_words overlap 0 [] = Some (map (cut ?ws) spans)
             \<and> AviationManualProcessor_chunk_text_loop ?ws max_words overlap 0 []
                 = Some (map (cut ?ws) spans)
             \<and> int (length spans)
                 = (if int (length ?ws) > max_words
                    then \<lceil>real_of_int (int (length ?ws) - overlap)
                           / real_of_int (max_words - overlap)\<rceil>
                    else 1)
             \<and> (\<forall>i. i + 2 < length spans \<longrightarrow>
                    span_overlap (spans ! i) (spans ! (i + 1)) = overlap)
             \<and> list_all (\<lambda>r. 0 \<le> fst r \<and> fst r < snd r \<and> snd r \<le> int (length ?ws)) spans"
    by (auto simp: loops_eq)
qed

text \<open>
  Instances of claim C1: four words, at most two words per chunk and an overlap of one;
  and the empty text.
\<close>

theorem chunk_count_and_overlap_witness:
  "(0::int) \<le> 1 \<and> (1::int) < 2 \<and> str_split ''a b c d'' \<noteq> [] \<and> str_split [] = []
   \<and> chunk_spans 4 2 1 0 [] = Some [(0, 2), (1, 3), (2, 4)]
   \<and> chunk_text_loop (str_split ''a b c d'') 2 1 0 [] = Some [''a b'', ''b c'', ''c d'']
   \<and> \<lceil>real_of_int (4 - 1) / real_of_int (2 - 1)\<rceil> = (3::int)
   \<and> span_overlap (0, 2) (1, 3) = 1
   \<and> chunk_text_loop (str_split []) 2 1 0 [] = Some []
   \<and> (\<exists>spans.
           chunk_spans (length (str_split ''a b c d'')) 2 1 0 [] = Some spans
         \<and> chunk_text_loop (str_split ''a b c d'') 2 1 0 []
             = Some (map (cut (str_split ''a b c d'')) spans)
         \<and> AviationManualProcessor_chunk_text_loop (str_split ''a b c d'') 2 1 0 []
             = Some (map (cut (str_split ''a b c d'')) spans)
         \<and> int (length spans)
             = (if int (length (str_split ''a b c d'')) > 2
                then \<lceil>real_of_int (int (length (str_split ''a b c d'')) - 1)
                       / real_of_int (2 - 1)\<rceil>
                else 1)
         \<and> (\<forall>i. i + 2 < length spans \<longrightarrow> span_overlap (spans ! i) (spans ! (i + 1)) = 1)
         \<and> list_all (\<lambda>r. 0 \<le> fst r \<and> fst r < snd r
                          \<and> snd r \<le> int (length (str_split ''a b c d''))) spans)"
proof -
  have h1: "(0::int) \<le> 1" and h2: "(1::int) < 2" by simp_all
  have h3: "str_split ''a b c d'' \<noteq> []" by code_simp
  have h4: "str_split [] = []" by code_simp
  have e1: "chunk_spans 4 2 1 0 [] = Some [(0, 2), (1, 3), (2, 4)]" by code_simp
  have e2: "chunk_text_loop (str_split ''a b c d'') 2 1 0 [] = Some [''a b'', ''b c'', ''c d'']"
    by code_simp
  have e3: "\<lceil>real_of_int (4 - 1) / real_of_int (2 - 1)\<rceil> = (3::int)" by simp
  have e4: "span_overlap (0, 2) (1, 3) = 1" by (simp add: span_overlap_def)
  have e5: "chunk_text_loop (str_split []) 2 1 0 [] = Some []"
    by (rule conjunct1[OF mp[OF conjunct1[OF chunk_count_and_overlap[OF h1 h2, of "[]"]] h4]])
  have e6: "\<exists>spans.
           chunk_spans (length (str_split ''a b c d'')) 2 1 0 [] = Some spans
         \<and> chunk_text_loop (str_split ''a b c d'') 2 1 0 []
             = Some (map (cut (str_split ''a b c d'')) spans)
         \<and> AviationManualProcessor_chunk_text_loop (str_split ''a b c d'') 2 1 0 []
             = Some (map (cut (str_split ''a b c d'')) spans)
         \<and> int (length spans)
             = (if int (length (str_split ''a b c d'')) > 2
                then \<lceil>real_of_int (int (length (str_split ''a b c d'')) - 1)
                       / real_of_int (2 - 1)\<rceil>
                else 1)
         \<and> (\<forall>i. i + 2 < length spans \<longrightarrow> span_overlap (spans ! i) (spans ! (i + 1)) = 1)
         \<and> list_all (\<lambda>r. 0 \<le> fst r \<and> fst r < snd r
                          \<and> snd r \<le> int (length (str_split ''a b c d''))) spans"
    by (rule mp[OF conjunct2[OF chunk_count_and_overlap[OF h1 h2, of "''a b c d''"]] h3])
  from h1 h2 h3 h4 e1 e2 e3 e4 e5 e6 show ?thesis by (intro conjI)
qed

text \<open>
  Claim C1 fails as stated. A text without words generates no chunk where the claim
  counts one. After the final filter a one-word text returns no chunk either. With
  the negative overlap \<open>-5\<close> and \<open>max_words = 1\<close>, three words generate one chunk,
  where the formula gives two.
\<close>

theorem chunk_count_counterexample:
  "chunk_text_loop (str_split []) 800 120 0 [] = Some []
   \<and> chunk_text [] 800 120 = Some []
   \<and> length (str_split ''a'') = 1 \<and> chunk_text ''a'' 800 120 = Some []
   \<and> length (str_split ''a b c'') = 3
   \<and> chunk_text_loop (str_split ''a b c'') 1 (- 5) 0 [] = Some [''a'']
   \<and> \<lceil>real_of_int (3 - (- 5)) / real_of_int (1 - (- 5))\<rceil> = (2::int)"
proof -
  have 1: "chunk_text_loop (str_split []) 800 120 0 [] = Some []" by code_simp
  have 2: "chunk_text [] 800 120 = Some []" by code_simp
  have 3: "length (str_split ''a'') = 1" by code_simp
  have 4: "chunk_text ''a'' 800 120 = Some []" by code_simp
  have 5: "length (str_split ''a b c'') = 3" by code_simp
  have 6: "chunk_text_loop (str_split ''a b c'') 1 (- 5) 0 [] = Some [''a'']" by code_simp
  have "real_of_int (3 - (- 5)) / real_of_int (1 - (- 5)) = 8 / 6" by simp
  then have 7: "\<lceil>real_of_int (3 - (- 5)) / real_of_int (1 - (- 5))\<rceil> = (2::int)"
    by (simp add: ceiling_eq_iff)
  from 1 2 3 4 5 6 7 show ?thesis by blast
qed

lemma str_split_join_split: "str_split (join_space (str_split t)) = str_split t"
  by (rule str_split_join) (simp add: str_split_words)

lemma chunk_text_single:
  assumes "0 < length (str_split t)" "int (length (str_split t)) \<le> m"
  shows "chunk_text t m ov =
           Some (if 50 < length (str_split t) then [join_space (str_split t)] else [])"
proof -
  have "chunk_text_loop (str_split t) m ov 0 [] = Some [cut (str_split t) (0, int (length (str_split t)))]"
    using loop_step_last(1)[of 0 "str_split t" m ov "[]"] assms by simp
  then show ?thesis
    by (simp add: chunk_text_def cut_def py_slice_all str_split_join_split)
qed

text \<open>
  Claim C4. \<^verbatim>\<open>chunk_text\<close> never returns a chunk of 50 or fewer words. With the
  default configuration (800 words, overlap 120), a page of exactly 50 words yields no
  chunk and a page of 51 words yields exactly one chunk.
\<close>

theorem chunks_longer_than_50_words:
  "(chunk_text text max_words overlap = Some chunks
      \<longrightarrow> list_all (\<lambda>c. 50 < length (str_split c)) chunks)
   \<and> (AviationManualProcessor_chunk_text text max_words overlap = Some chunks
      \<longrightarrow> list_all (\<lambda>c. 50 < length (str_split c)) chunks)
   \<and> (length (str_split page50) = 50
      \<longrightarrow> chunk_text page50 800 120 = Some []
        \<and> AviationManualProcessor_chunk_text page50 800 120 = Some [])
   \<and> (length (str_split page51) = 51
      \<longrightarrow> chunk_text page51 800 120 = Some [join_space (str_split page51)]
        \<and> AviationManualProcessor_chunk_text page51 800 120
            = Some [join_space (str_split page51)])"
proof -
  have a: "chunk_text text max_words overlap = Some chunks
      \<longrightarrow> list_all (\<lambda>c. 50 < length (str_split c)) chunks"
    by (auto simp: chunk_text_def list_all_iff)
  have b: "length (str_split page50) = 50 \<longrightarrow> chunk_text page50 800 120 = Some []"
  proof
    assume l: "length (str_split page50) = 50"
    then have "0 < length (str_split page50)" "int (length (str_split page50)) \<le> 800"
      by simp_all
    from chunk_text_single[OF this] l show "chunk_text page50 800 120 = Some []" by simp
  qed
  have c: "length (str_split page51) = 51
      \<longrightarrow> chunk_text page51 800 120 = Some [join_space (str_split page51)]"
  proof
    assume l: "length (str_split page51) = 51"
    then have "0 < length (str_split page51)" "int (length (str_split page51)) \<le> 800"
      by simp_all
    from chunk_text_single[OF this] l
    show "chunk_text page51 800 120 = Some [join_space (str_split page51)]" by simp
  qed
  from a b c show ?thesis by (simp only: chunk_texts_eq) simp
qed

text \<open>
  An instance of claim C4: the pages made of 50 and of 51 one-letter words.
\<close>

theorem chunks_longer_than_50_words_witness:
  "length (str_split (concat (replicate 50 ''w ''))) = 50
   \<and> chunk_text (concat (replicate 50 ''w '')) 800 120 = Some []
   \<and> AviationManualProcessor_chunk_text (concat (replicate 50 ''w '')) 800 120 = Some []
   \<and> length (str_split (concat (replicate 51 ''w ''))) = 51
   \<and> chunk_text (concat (replicate 51 ''w '')) 800 120
        = Some [join_space (str_split (concat (replicate 51 ''w '')))]
   \<and> AviationManualProcessor_chunk_text (concat (replicate 51 ''w '')) 800 120
        = Some [join_space (str_split (concat (replicate 51 ''w '')))]
   \<and> list_all (\<lambda>c. 50 < length (str_split c))
        [join_space (str_split (concat (replicate 51 ''w '')))]"
proof -
  have h50: "length (str_split (concat (replicate 50 ''w ''))) = 50" by code_simp
  have h51: "length (str_split (concat (replicate 51 ''w ''))) = 51" by code_simp
  note t = chunks_longer_than_50_words
             [of "concat (replicate 51 ''w '')" 800 120
                 "[join_space (str_split (concat (replicate 51 ''w '')))]"
                 "concat (replicate 50 ''w '')" "concat (replicate 51 ''w '')"]
  from h50 h51 t show ?thesis by blast
qed

section \<open>The ingestion pipelines\<close>

lemma inferred_pages_append: "inferred_pages (a @ b) = inferred_pages a @ inferred_pages b"
  by (induction a rule: inferred_pages.induct) auto

lemma inferred_before_append:
  "inferred_before seen (a @ b)
     = (inferred_before seen a \<and> inferred_before (rev (inferred_pages a) @ seen) b)"
  by (induction seen a rule: inferred_before.induct) auto

lemma inferred_before_mono:
  "inferred_before seen tr \<Longrightarrow> set seen \<subseteq> set seen' \<Longrightarrow> inferred_before seen' tr"
proof (induction seen tr arbitrary: seen' rule: inferred_before.induct)
  case (1 seen)
  then show ?case by simp
next
  case (2 seen n tr)
  from 2(2,3) have "set (n # seen) \<subseteq> set (n # seen')" by auto
  with 2 show ?case by simp
next
  case (3 seen n c tr)
  then show ?case by auto
qed

lemma inferred_before_encodes: "n \<in> set seen \<Longrightarrow> inferred_before seen (map (Encode n) cs)"
  by (induction cs) auto

lemma inferred_pages_encodes: "inferred_pages (map (Encode n) cs) = []"
  by (induction cs) auto

lemma chunk_text_default: "\<exists>chunks. chunk_text t 800 120 = Some chunks"
  by (rule chunk_text_total) simp

lemma foldl_index_chunk:
  "\<exists>ds. actions (foldl (index_chunk u e m p s c pn) st chunks) = actions st @ ds
      \<and> map src_content ds = chunks
      \<and> (\<forall>d \<in> set ds. src_page d = page_number p \<and> src_section d = s \<and> src_chapter d = c
             \<and> src_part_number d = pn \<and> src_manual_id d = m)
      \<and> calls (foldl (index_chunk u e m p s c pn) st chunks)
          = calls st @ map (Encode (page_number p)) chunks
      \<and> chunk_count (foldl (index_chunk u e m p s c pn) st chunks)
          = chunk_count st + length chunks"
proof (induction chunks arbitrary: st)
  case Nil
  then show ?case by simp
next
  case (Cons x xs)
  let ?st = "index_chunk u e m p s c pn st x"
  from Cons[of ?st] obtain ds where ds:
    "actions (foldl (index_chunk u e m p s c pn) ?st xs) = actions ?st @ ds"
    "map src_content ds = xs"
    "\<forall>d \<in> set ds. src_page d = page_number p \<and> src_section d = s \<and> src_chapter d = c
             \<and> src_part_number d = pn \<and> src_manual_id d = m"
    "calls (foldl (index_chunk u e m p s c pn) ?st xs) = calls ?st @ map (Encode (page_number p)) xs"
    "chunk_count (foldl (index_chunk u e m p s c pn) ?st xs) = chunk_count ?st + length xs"
    by blast
  obtain d where d: "actions ?st = actions st @ [d]" "src_content d = x" "src_page d = page_number p"
    "src_section d = s" "src_chapter d = c" "src_part_number d = pn" "src_manual_id d = m"
    "calls ?st = calls st @ [Encode (page_number p) x]" "chunk_count ?st = chunk_count st + 1"
    by (simp add: index_chunk_def Let_def)
  show ?case
    by (rule exI[of _ "d # ds"]) (use ds d in simp)
qed

lemma index_page_result:
  "\<exists>st' ds new. index_page u e m st p = Some st'
      \<and> actions st' = actions st @ ds \<and> (\<forall>d \<in> set ds. from_page p d)
      \<and> chunk_text (page_text p) 800 120 = Some (map src_content ds)
      \<and> calls st' = calls st @ new \<and> inferred_pages new = [page_number p]
      \<and> (\<forall>seen. inferred_before seen new)
      \<and> chunk_count st' = chunk_count st + length ds"
proof -
  obtain chunks where ch: "chunk_text (page_text p) 800 120 = Some chunks"
    using chunk_text_default by blast
  let ?st1 = "st\<lparr>calls := calls st @ [InferMetadata (page_number p)]\<rparr>"
  let ?f = "index_chunk u e m p (infer_section (page_text p)) (infer_chapter (page_text p))
              (infer_part_number (page_text p))"
  have r: "index_page u e m st p = Some (foldl ?f ?st1 chunks)"
    by (simp add: index_page_def ch Let_def)
  from foldl_index_chunk[of u e m p "infer_section (page_text p)" "infer_chapter (page_text p)"
         "infer_part_number (page_text p)" ?st1 chunks]
  obtain ds where ds:
    "actions (foldl ?f ?st1 chunks) = actions ?st1 @ ds"
    "map src_content ds = chunks"
    "\<forall>d \<in> set ds. src_page d = page_number p \<and> src_section d = infer_section (page_text p)
        \<and> src_chapter d = infer_chapter (page_text p)
        \<and> src_part_number d = infer_part_number (page_text p) \<and> src_manual_id d = m"
    "calls (foldl ?f ?st1 chunks) = calls ?st1 @ map (Encode (page_number p)) chunks"
    "chunk_count (foldl ?f ?st1 chunks) = chunk_count ?st1 + length chunks"
    by blast
  let ?new = "InferMetadata (page_number p) # map (Encode (page_number p)) chunks"
  have 1: "actions (foldl ?f ?st1 chunks) = actions st @ ds" using ds(1) by simp
  have 2: "\<forall>d \<in> set ds. from_page p d" using ds(3) by (simp add: from_page_def)
  have 3: "calls (foldl ?f ?st1 chunks) = calls st @ ?new" using ds(4) by simp
  have 4: "inferred_pages ?new = [page_number p]" by (simp add: inferred_pages_encodes)
  have 5: "\<forall>seen. inferred_before seen ?new" by (simp add: inferred_before_encodes)
  have 6: "chunk_count (foldl ?f ?st1 chunks) = chunk_count st + length ds"
    using ds(5,2) by auto
  have 7: "chunk_text (page_text p) 800 120 = Some (map src_content ds)" using ch ds(2) by simp
  from r 1 2 3 4 5 6 7 show ?thesis by blast
qed

lemma index_pages_result:
  "\<exists>st' ds new. index_pages u e m st pages = Some st'
      \<and> actions st' = actions st @ ds \<and> (\<forall>d \<in> set ds. \<exists>p \<in> set pages. from_page p d)
      \<and> calls st' = calls st @ new \<and> inferred_pages new = map page_number pages
      \<and> (\<forall>seen. inferred_before seen new)
      \<and> chunk_count st' = chunk_count st + length ds"
proof (induction pages arbitrary: st)
  case Nil
  show ?case by (rule exI[of _ st], rule exI[of _ "[]"], rule exI[of _ "[]"]) simp
next
  case (Cons p ps)
  from index_page_result[of u e m st p] obtain st1 ds1 new1 where 1:
    "index_page u e m st p = Some st1" "actions st1 = actions st @ ds1"
    "\<forall>d \<in> set ds1. from_page p d" "calls st1 = calls st @ new1"
    "inferred_pages new1 = [page_number p]" "\<forall>seen. inferred_before seen new1"
    "chunk_count st1 = chunk_count st + length ds1"
    by blast
  from Cons[of st1] obtain st2 ds2 new2 where 2:
    "index_pages u e m st1 ps = Some st2" "actions st2 = actions st1 @ ds2"
    "\<forall>d \<in> set ds2. \<exists>p \<in> set ps. from_page p d" "calls st2 = calls st1 @ new2"
    "inferred_pages new2 = map page_number ps" "\<forall>seen. inferred_before seen new2"
    "chunk_count st2 = chunk_count st1 + length ds2"
    by blast
  have a: "index_pages u e m st (p # ps) = Some st2" using 1(1) 2(1) by simp
  have b: "actions st2 = actions st @ (ds1 @ ds2)" using 1(2) 2(2) by simp
  have c: "\<forall>d \<in> set (ds1 @ ds2). \<exists>q \<in> set (p # ps). from_page q d" using 1(3) 2(3) by auto
  have d: "calls st2 = calls st @ (new1 @ new2)" using 1(4) 2(4) by simp
  have e: "inferred_pages (new1 @ new2) = map page_number (p # ps)"
    using 1(5) 2(5) by (simp add: inferred_pages_append)
  have f: "\<forall>seen. inferred_before seen (new1 @ new2)"
    using 1(6) 2(6) by (simp add: inferred_before_append)
  have g: "chunk_count st2 = chunk_count st + length (ds1 @ ds2)" using 1(7) 2(7) by simp
  from a b c d e f g show ?case by blast
qed

lemma extract_from_numbers:
  "sorted_wrt (<) (map page_number (extract_text_by_page_from i xs))
   \<and> (\<forall>p \<in> set (extract_text_by_page_from i xs). i \<le> page_number p)"
proof (induction xs arbitrary: i)
  case Nil
  then show ?case by simp
next
  case (Cons x xs)
  from Cons[of "Suc i"] show ?case
    by (auto simp: Let_def sorted_wrt_append)
qed

lemma extract_distinct: "distinct (map page_number (extract_text_by_page xs))"
  using extract_from_numbers[of 1 xs] strict_sorted_iff
  unfolding extract_text_by_page_def by blast

lemma same_number_same_page:
  assumes "distinct (map page_number pages)" "p \<in> set pages" "q \<in> set pages"
    "page_number p = page_number q"
  shows "p = q"
  using assms by (meson distinct_map inj_onD)

lemma index_pdf_result:
  "\<exists>r. index_pdf u e extracted m = Some r
     \<and> (\<forall>d \<in> set (bulk r). \<exists>p \<in> set (extract_text_by_page extracted). from_page p d)
     \<and> inferred_pages (trace r) = map page_number (extract_text_by_page extracted)
     \<and> inferred_before [] (trace r)
     \<and> printed_pages r = length (extract_text_by_page extracted)
     \<and> printed_chunks r = length (bulk r)
     \<and> returned r = PyNone"
proof -
  let ?st0 = "\<lparr>actions = [], chunk_count = 0, calls = []\<rparr> :: ('a, 'b) index_state"
  from index_pages_result[of u e m ?st0 "extract_text_by_page extracted"]
  obtain st' ds new where s:
    "index_pages u e m ?st0 (extract_text_by_page extracted) = Some st'"
    "actions st' = actions ?st0 @ ds"
    "\<forall>d \<in> set ds. \<exists>p \<in> set (extract_text_by_page extracted). from_page p d"
    "calls st' = calls ?st0 @ new"
    "inferred_pages new = map page_number (extract_text_by_page extracted)"
    "\<forall>seen. inferred_before seen new"
    "chunk_count st' = chunk_count ?st0 + length ds"
    by blast
  let ?r = "\<lparr>bulk = actions st', printed_pages = length (extract_text_by_page extracted),
             printed_chunks = chunk_count st', returned = PyNone, trace = calls st'\<rparr>"
  have "index_pdf u e extracted m = Some ?r"
    using s(1) by (simp add: index_pdf_def Let_def)
  moreover have "actions st' = ds" "calls st' = new" "chunk_count st' = length ds"
    using s(2,4,7) by simp_all
  ultimately show ?thesis using s(3,5,6) by simp
qed


lemma AviationManualProcessor_chunk_text_default:
  "\<exists>chunks. AviationManualProcessor_chunk_text t 800 120 = Some chunks"
  using chunk_text_default by (simp add: chunk_texts_eq)

lemma foldl_process_chunk:
  "\<exists>ds. documents (foldl (process_chunk u e ix m p meta) st chunks) = documents st @ ds
      \<and> map src_content ds = chunks
      \<and> (\<forall>d \<in> set ds. src_page d = page_number p \<and> src_section d = meta_section meta
             \<and> src_chapter d = meta_ata_chapter meta
             \<and> src_part_number d = meta_part_number meta \<and> src_manual_id d = m)
      \<and> process_calls (foldl (process_chunk u e ix m p meta) st chunks)
          = process_calls st @ map (Encode (page_number p)) chunks"
proof (induction chunks arbitrary: st)
  case Nil
  then show ?case by simp
next
  case (Cons x xs)
  let ?st = "process_chunk u e ix m p meta st x"
  from Cons[of ?st] obtain ds where ds:
    "documents (foldl (process_chunk u e ix m p meta) ?st xs) = documents ?st @ ds"
    "map src_content ds = xs"
    "\<forall>d \<in> set ds. src_page d = page_number p \<and> src_section d = meta_section meta
             \<and> src_chapter d = meta_ata_chapter meta
             \<and> src_part_number d = meta_part_number meta \<and> src_manual_id d = m"
    "process_calls (foldl (process_chunk u e ix m p meta) ?st xs)
       = process_calls ?st @ map (Encode (page_number p)) xs"
    by blast
  obtain d where d: "documents ?st = documents st @ [d]" "src_content d = x"
    "src_page d = page_number p" "src_section d = meta_section meta"
    "src_chapter d = meta_ata_chapter meta" "src_part_number d = meta_part_number meta"
    "src_manual_id d = m" "process_calls ?st = process_calls st @ [Encode (page_number p) x]"
    by (simp add: process_chunk_def Let_def)
  show ?case
    by (rule exI[of _ "d # ds"]) (use ds d in simp)
qed

lemma process_page_result:
  "\<exists>st' ds new. process_page u e ix m st p = Some st'
      \<and> documents st' = documents st @ ds \<and> (\<forall>d \<in> set ds. from_page_data p d)
      \<and> AviationManualProcessor_chunk_text (page_text p) 800 120 = Some (map src_content ds)
      \<and> process_calls st' = process_calls st @ new \<and> inferred_pages new = [page_number p]
      \<and> (\<forall>seen. inferred_before seen new)"
proof -
  obtain chunks where ch: "AviationManualProcessor_chunk_text (page_text p) 800 120 = Some chunks"
    using AviationManualProcessor_chunk_text_default by blast
  let ?st1 = "st\<lparr>process_calls := process_calls st @ [InferMetadata (page_number p)]\<rparr>"
  let ?meta = "AviationManualProcessor_extract_metadata (page_text p)"
  let ?f = "process_chunk u e ix m p ?meta"
  have r: "process_page u e ix m st p = Some (foldl ?f ?st1 chunks)"
    by (simp add: process_page_def ch Let_def)
  from foldl_process_chunk[of u e ix m p ?meta ?st1 chunks]
  obtain ds where ds:
    "documents (foldl ?f ?st1 chunks) = documents ?st1 @ ds"
    "map src_content ds = chunks"
    "\<forall>d \<in> set ds. src_page d = page_number p \<and> src_section d = meta_section ?meta
        \<and> src_chapter d = meta_ata_chapter ?meta
        \<and> src_part_number d = meta_part_number ?meta \<and> src_manual_id d = m"
    "process_calls (foldl ?f ?st1 chunks) = process_calls ?st1 @ map (Encode (page_number p)) chunks"
    by blast
  let ?new = "InferMetadata (page_number p) # map (Encode (page_number p)) chunks"
  have 1: "documents (foldl ?f ?st1 chunks) = documents st @ ds" using ds(1) by simp
  have 2: "\<forall>d \<in> set ds. from_page_data p d" using ds(3) by (simp add: from_page_data_def)
  have 3: "process_calls (foldl ?f ?st1 chunks) = process_calls st @ ?new" using ds(4) by simp
  have 4: "inferred_pages ?new = [page_number p]" by (simp add: inferred_pages_encodes)
  have 5: "\<forall>seen. inferred_before seen ?new" by (simp add: inferred_before_encodes)
  have 7: "AviationManualProcessor_chunk_text (page_text p) 800 120 = Some (map src_content ds)"
    using ch ds(2) by simp
  from r 1 2 3 4 5 7 show ?thesis by blast
qed

lemma process_pages_result:
  "\<exists>st' ds new. process_pages u e ix m st pages = Some st'
      \<and> documents st' = documents st @ ds
      \<and> (\<forall>d \<in> set ds. \<exists>p \<in> set pages. from_page_data p d)
      \<and> process_calls st' = process_calls st @ new
      \<and> inferred_pages new = map page_number pages
      \<and> (\<forall>seen. inferred_before seen new)"
proof (induction pages arbitrary: st)
  case Nil
  show ?case by (rule exI[of _ st], rule exI[of _ "[]"], rule exI[of _ "[]"]) simp
next
  case (Cons p ps)
  from process_page_result[of u e ix m st p] obtain st1 ds1 new1 where 1:
    "process_page u e ix m st p = Some st1" "documents st1 = documents st @ ds1"
    "\<forall>d \<in> set ds1. from_page_data p d" "process_calls st1 = process_calls st @ new1"
    "inferred_pages new1 = [page_number p]" "\<forall>seen. inferred_before seen new1"
    by blast
  from Cons[of st1] obtain st2 ds2 new2 where 2:
    "process_pages u e ix m st1 ps = Some st2" "documents st2 = documents st1 @ ds2"
    "\<forall>d \<in> set ds2. \<exists>p \<in> set ps. from_page_data p d"
    "process_calls st2 = process_calls st1 @ new2"
    "inferred_pages new2 = map page_number ps" "\<forall>seen. inferred_before seen new2"
    by blast
  have a: "process_pages u e ix m st (p # ps) = Some st2" using 1(1) 2(1) by simp
  have b: "documents st2 = documents st @ (ds1 @ ds2)" using 1(2) 2(2) by simp
  have c: "\<forall>d \<in> set (ds1 @ ds2). \<exists>q \<in> set (p # ps). from_page_data q d"
    using 1(3) 2(3) by auto
  have d: "process_calls st2 = process_calls st @ (new1 @ new2)" using 1(4) 2(4) by simp
  have e: "inferred_pages (new1 @ new2) = map page_number (p # ps)"
    using 1(5) 2(5) by (simp add: inferred_pages_append)
  have f: "\<forall>seen. inferred_before seen (new1 @ new2)"
    using 1(6) 2(6) by (simp add: inferred_before_append)
  from a b c d e f show ?case by blast
qed

lemma parse_from_numbers:
  "sorted_wrt (<) (map page_number (AviationManualProcessor_parse_pdf_from i xs))
   \<and> (\<forall>p \<in> set (AviationManualProcessor_parse_pdf_from i xs). i \<le> page_number p)"
proof (induction xs arbitrary: i)
  case Nil
  then show ?case by simp
next
  case (Cons x xs)
  from Cons[of "Suc i"] show ?case
    by (auto simp: sorted_wrt_append split: option.splits)
qed

lemma parse_distinct: "distinct (map page_number (AviationManualProcessor_parse_pdf xs))"
  using parse_from_numbers[of 1 xs] strict_sorted_iff
  unfolding AviationManualProcessor_parse_pdf_def by blast

lemma process_manual_result:
  "\<exists>r. AviationManualProcessor_process_manual u e ix extracted m = Some r
     \<and> (\<forall>d \<in> set (bulk r). \<exists>p \<in> set (AviationManualProcessor_parse_pdf extracted).
            from_page_data p d)
     \<and> inferred_pages (trace r) = map page_number (AviationManualProcessor_parse_pdf extracted)
     \<and> inferred_before [] (trace r)
     \<and> printed_pages r = length (AviationManualProcessor_parse_pdf extracted)
     \<and> printed_chunks r = length (bulk r)
     \<and> returned r = PyNone"
proof -
  let ?st0 = "\<lparr>documents = [], process_calls = []\<rparr> :: ('a, 'b) process_state"
  from process_pages_result[of u e ix m ?st0 "AviationManualProcessor_parse_pdf extracted"]
  obtain st' ds new where s:
    "process_pages u e ix m ?st0 (AviationManualProcessor_parse_pdf extracted) = Some st'"
    "documents st' = documents ?st0 @ ds"
    "\<forall>d \<in> set ds. \<exists>p \<in> set (AviationManualProcessor_parse_pdf extracted). from_page_data p d"
    "process_calls st' = process_calls ?st0 @ new"
    "inferred_pages new = map page_number (AviationManualProcessor_parse_pdf extracted)"
    "\<forall>seen. inferred_before seen new"
    by blast
  let ?r = "\<lparr>bulk = documents st',
             printed_pages = length (AviationManualProcessor_parse_pdf extracted),
             printed_chunks = length (documents st'), returned = PyNone,
             trace = process_calls st'\<rparr>"
  have "AviationManualProcessor_process_manual u e ix extracted m = Some ?r"
    using s(1) by (simp add: AviationManualProcessor_process_manual_def Let_def)
  moreover have "documents st' = ds" "process_calls st' = new"
    using s(2,4) by simp_all
  ultimately show ?thesis using s(3,5,6) by simp
qed

lemma doc_keys_of_page:
  "\<forall>d \<in> set ds. src_page d = n \<Longrightarrow> map doc_key ds = map (Pair n) (map src_content ds)"
  by (induction ds) (auto simp: doc_key_def)

lemma index_pages_keys:
  "index_pages u e m st pages = Some st' \<Longrightarrow>
     map doc_key (actions st') = map doc_key (actions st) @ concat (map page_chunks pages)"
proof (induction pages arbitrary: st)
  case Nil
  then show ?case by simp
next
  case (Cons p ps)
  from index_page_result[of u e m st p] obtain st1 ds1 where 1:
    "index_page u e m st p = Some st1" "actions st1 = actions st @ ds1"
    "\<forall>d \<in> set ds1. from_page p d"
    "chunk_text (page_text p) 800 120 = Some (map src_content ds1)"
    by blast
  have "\<forall>d \<in> set ds1. src_page d = page_number p" using 1(3) by (simp add: from_page_def)
  then have k: "map doc_key ds1 = page_chunks p"
    using doc_keys_of_page[of ds1 "page_number p"] 1(4)
    by (simp add: page_chunks_def default_chunks_def)
  from Cons.prems 1(1) have "index_pages u e m st1 ps = Some st'" by simp
  from Cons.IH[OF this] show ?case using 1(2) k by simp
qed

lemma index_pdf_keys:
  "index_pdf u e extracted m = Some r \<Longrightarrow>
     map doc_key (bulk r) = concat (map page_chunks (extract_text_by_page extracted))"
proof -
  assume a: "index_pdf u e extracted m = Some r"
  let ?st0 = "\<lparr>actions = [], chunk_count = 0, calls = []\<rparr> :: ('a, 'b) index_state"
  from a obtain st where st:
    "index_pages u e m ?st0 (extract_text_by_page extracted) = Some st" "bulk r = actions st"
    by (auto simp: index_pdf_def Let_def split: option.splits)
  from index_pages_keys[OF st(1)] st(2) show ?thesis by simp
qed

lemma process_pages_keys:
  "process_pages u e ix m st pages = Some st' \<Longrightarrow>
     map doc_key (documents st') = map doc_key (documents st) @ concat (map page_chunks pages)"
proof (induction pages arbitrary: st)
  case Nil
  then show ?case by simp
next
  case (Cons p ps)
  from process_page_result[of u e ix m st p] obtain st1 ds1 where 1:
    "process_page u e ix m st p = Some st1" "documents st1 = documents st @ ds1"
    "\<forall>d \<in> set ds1. from_page_data p d"
    "AviationManualProcessor_chunk_text (page_text p) 800 120 = Some (map src_content ds1)"
    by blast
  have "\<forall>d \<in> set ds1. src_page d = page_number p" using 1(3) by (simp add: from_page_data_def)
  then have k: "map doc_key ds1 = page_chunks p"
    using doc_keys_of_page[of ds1 "page_number p"] 1(4)
    by (simp add: page_chunks_def default_chunks_def chunk_texts_eq)
  from Cons.prems 1(1) have "process_pages u e ix m st1 ps = Some st'" by simp
  from Cons.IH[OF this] show ?case using 1(2) k by simp
qed

lemma process_manual_keys:
  "AviationManualProcessor_process_manual u e ix extracted m = Some r \<Longrightarrow>
     map doc_key (bulk r) = concat (map page_chunks (AviationManualProcessor_parse_pdf extracted))"
proof -
  assume a: "AviationManualProcessor_process_manual u e ix extracted m = Some r"
  let ?st0 = "\<lparr>documents = [], process_calls = []\<rparr> :: ('a, 'b) process_state"
  from a obtain st where st:
    "process_pages u e ix m ?st0 (AviationManualProcessor_parse_pdf extracted) = Some st"
    "bulk r = documents st"
    by (auto simp: AviationManualProcessor_process_manual_def Let_def split: option.splits)
  from process_pages_keys[OF st(1)] st(2) show ?thesis by simp
qed

lemma normalize_Nil: "normalize [] = []"
  by (simp add: normalize_def str_strip_def)

lemma normalize_nonempty: "normalize t \<noteq> [] \<Longrightarrow> t \<noteq> []"
  using normalize_Nil by auto

lemma extract_three:
  "set (extract_text_by_page [a, Some [], c]) \<subseteq>
     {\<lparr>page_number = 1, page_text = normalize (case a of None \<Rightarrow> [] | Some t \<Rightarrow> t)\<rparr>,
      \<lparr>page_number = 3, page_text = normalize (case c of None \<Rightarrow> [] | Some t \<Rightarrow> t)\<rparr>}"
  by (auto simp: extract_text_by_page_def Let_def normalize_Nil numeral_3_eq_3)

lemma extract_three_full:
  "normalize t1 \<noteq> [] \<Longrightarrow> normalize t3 \<noteq> [] \<Longrightarrow>
     extract_text_by_page [Some t1, Some [], Some t3]
       = [\<lparr>page_number = 1, page_text = normalize t1\<rparr>, \<lparr>page_number = 3, page_text = normalize t3\<rparr>]"
  by (simp add: extract_text_by_page_def Let_def normalize_Nil numeral_3_eq_3)

lemma parse_three:
  "set (AviationManualProcessor_parse_pdf [a, Some [], c]) \<subseteq>
     {\<lparr>page_number = 1, page_text = normalize (case a of None \<Rightarrow> [] | Some t \<Rightarrow> t)\<rparr>,
      \<lparr>page_number = 3, page_text = normalize (case c of None \<Rightarrow> [] | Some t \<Rightarrow> t)\<rparr>}"
  by (auto simp: AviationManualProcessor_parse_pdf_def numeral_3_eq_3 split: option.splits)

lemma parse_three_full:
  "t1 \<noteq> [] \<Longrightarrow> t3 \<noteq> [] \<Longrightarrow>
     AviationManualProcessor_parse_pdf [Some t1, Some [], Some t3]
       = [\<lparr>page_number = 1, page_text = normalize t1\<rparr>, \<lparr>page_number = 3, page_text = normalize t3\<rparr>]"
  by (simp add: AviationManualProcessor_parse_pdf_def numeral_3_eq_3)

subsection \<open>Sample manuals\<close>

lemma no_adjacent_ws_nonspace_prefix:
  "\<forall>c \<in> set w. \<not> isspace c \<Longrightarrow> no_adjacent_ws (w @ s) = no_adjacent_ws s"
  by (induction w) (auto simp: no_adjacent_ws_Cons)

lemma join_space_hd:
  "ws \<noteq> [] \<Longrightarrow> \<forall>x \<in> set ws. is_word x \<Longrightarrow>
     join_space ws \<noteq> [] \<and> \<not> isspace (hd (join_space ws)) \<and> \<not> isspace (last (join_space ws))"
proof (induction ws rule: join_space.induct)
  case 1
  then show ?case by simp
next
  case (2 w)
  then have "w \<noteq> []" "\<forall>c \<in> set w. \<not> isspace c" by (auto simp: is_word_def list_all_iff)
  then show ?case using hd_in_set[of w] last_in_set[of w] by auto
next
  case (3 w v ws)
  then have "join_space (v # ws) \<noteq> []" "\<not> isspace (last (join_space (v # ws)))" by auto
  moreover have "w \<noteq> []" "\<forall>c \<in> set w. \<not> isspace c"
    using 3(3) by (auto simp: is_word_def list_all_iff)
  then have "w \<noteq> []" "\<not> isspace (hd w)" using hd_in_set[of w] by auto
  ultimately show ?case by (cases w) auto
qed

lemma join_space_spaces:
  "\<forall>x \<in> set ws. is_word x \<Longrightarrow> c \<in> set (join_space ws) \<Longrightarrow> isspace c \<Longrightarrow> c = CHR '' ''"
  by (induction ws rule: join_space.induct) (auto simp: is_word_def list_all_iff)

lemma join_space_no_adjacent:
  "\<forall>x \<in> set ws. is_word x \<Longrightarrow> no_adjacent_ws (join_space ws)"
proof (induction ws rule: join_space.induct)
  case 1
  then show ?case by simp
next
  case (2 w)
  then show ?case
    using no_adjacent_ws_nonspace_prefix[of w "[]"] by (simp add: is_word_def list_all_iff)
next
  case (3 w v ws)
  have w: "\<forall>c \<in> set w. \<not> isspace c" using 3(2) by (simp add: is_word_def list_all_iff)
  have "\<not> isspace (hd (join_space (v # ws)))" "join_space (v # ws) \<noteq> []"
    using join_space_hd[of "v # ws"] 3(2) by auto
  then have "no_adjacent_ws (CHR '' '' # join_space (v # ws))"
    using 3 by (simp add: no_adjacent_ws_Cons)
  then show ?case using no_adjacent_ws_nonspace_prefix[OF w] by simp
qed

lemma str_strip_fixed:
  "s \<noteq> [] \<Longrightarrow> \<not> isspace (hd s) \<Longrightarrow> \<not> isspace (last s) \<Longrightarrow> str_strip s = s"
proof -
  assume a: "s \<noteq> []" "\<not> isspace (hd s)" "\<not> isspace (last s)"
  then have 1: "dropWhile isspace s = s" by (cases s) auto
  have "dropWhile isspace (rev s) = rev s" using a(1,3) by (cases s rule: rev_cases) auto
  with 1 show ?thesis by (simp add: str_strip_def)
qed

lemma normalize_join_space:
  assumes "\<forall>x \<in> set ws. is_word x"
  shows "normalize (join_space ws) = join_space ws"
proof (cases "ws = []")
  case True
  then show ?thesis by (simp add: normalize_def str_strip_def)
next
  case False
  have "re_sub_ws (join_space ws) = join_space ws"
    using join_space_spaces[OF assms] join_space_no_adjacent[OF assms]
    by (intro re_sub_ws_fixed) auto
  moreover have "str_strip (join_space ws) = join_space ws"
    using join_space_hd[OF False assms] by (intro str_strip_fixed) auto
  ultimately show ?thesis by (simp add: normalize_def)
qed

lemma replicate_w_words: "\<forall>x \<in> set (replicate n ''w''). is_word x"
  by (simp add: is_word_def isspace_def whitespace_chars_def)

lemma str_split_page_of_words: "str_split (page_of_words n) = replicate n ''w''"
  unfolding page_of_words_def by (rule str_split_join) (rule replicate_w_words)

lemma normalize_page_of_words: "normalize (page_of_words n) = page_of_words n"
  unfolding page_of_words_def by (rule normalize_join_space) (rule replicate_w_words)

lemma page_of_words_nonempty: "0 < n \<Longrightarrow> page_of_words n \<noteq> []"
  using str_split_page_of_words[of n] by (auto simp: str_split_def)

lemma chunk_text_two:
  assumes "length (str_split t) = 801"
  shows "chunk_text t 800 120
           = Some [cut (str_split t) (0, 800), cut (str_split t) (680, 801)]"
proof -
  let ?ws = "str_split t"
  have 1: "chunk_text_loop ?ws 800 120 0 []
             = chunk_text_loop ?ws 800 120 680 [cut ?ws (0, 800)]"
    using loop_step_continue(1)[of 0 ?ws 800 120 "[]"] assms by simp
  have 2: "chunk_text_loop ?ws 800 120 680 [cut ?ws (0, 800)]
             = Some [cut ?ws (0, 800), cut ?ws (680, 801)]"
    using loop_step_last(1)[of 680 ?ws 800 120 "[cut ?ws (0, 800)]"] assms by simp
  have 3: "length (str_split (cut ?ws (0, 800))) = 800"
    using assms by (simp add: cut_def str_split_chunk length_py_slice)
  have 4: "length (str_split (cut ?ws (680, 801))) = 121"
    using assms by (simp add: cut_def str_split_chunk length_py_slice)
  show ?thesis by (simp add: chunk_text_def 1 2 3 4)
qed

lemma page_chunks_801:
  "page_chunks \<lparr>page_number = n, page_text = page_of_words 801\<rparr>
     = [(n, cut (replicate 801 ''w'') (0, 800)), (n, cut (replicate 801 ''w'') (680, 801))]"
proof -
  have "length (str_split (page_of_words 801)) = 801" by (simp add: str_split_page_of_words)
  from chunk_text_two[OF this] show ?thesis
    by (simp add: page_chunks_def default_chunks_def str_split_page_of_words)
qed

lemma page_chunks_51:
  "page_chunks \<lparr>page_number = n, page_text = page_of_words 51\<rparr> = [(n, page_of_words 51)]"
proof -
  let ?t = "page_of_words 51"
  have l: "length (str_split ?t) = 51" by (simp add: str_split_page_of_words)
  then have "0 < length (str_split ?t)" "int (length (str_split ?t)) \<le> 800" by simp_all
  from chunk_text_single[OF this, of 120] l
  have "chunk_text ?t 800 120 = Some [join_space (str_split ?t)]" by simp
  moreover have "join_space (str_split ?t) = ?t"
    unfolding str_split_page_of_words by (simp add: page_of_words_def)
  ultimately show ?thesis by (simp add: page_chunks_def default_chunks_def)
qed

lemma src_pages_of_keys: "map src_page ds = map fst (map doc_key ds)"
  by (simp add: doc_key_def comp_def)

lemma index_pdf_pages_1_3:
  assumes "normalize t1 \<noteq> []" "normalize t3 \<noteq> []"
  shows "\<exists>r. index_pdf u e [Some t1, Some [], Some t3] m = Some r
      \<and> map doc_key (bulk r)
          = page_chunks \<lparr>page_number = 1, page_text = normalize t1\<rparr>
            @ page_chunks \<lparr>page_number = 3, page_text = normalize t3\<rparr>
      \<and> map page_number (extract_text_by_page [Some t1, Some [], Some t3]) = [1, 3]
      \<and> returned r = PyNone \<and> printed_pages r = 2 \<and> printed_chunks r = length (bulk r)"
proof -
  let ?x = "[Some t1, Some [], Some t3]"
  from index_pdf_result[of u e ?x m]
  obtain r where r: "index_pdf u e ?x m = Some r"
    "printed_pages r = length (extract_text_by_page ?x)" "printed_chunks r = length (bulk r)"
    "returned r = PyNone"
    by (elim exE conjE)
  note pages = extract_three_full[OF assms]
  have k: "map doc_key (bulk r)
          = page_chunks \<lparr>page_number = 1, page_text = normalize t1\<rparr>
            @ page_chunks \<lparr>page_number = 3, page_text = normalize t3\<rparr>"
    using index_pdf_keys[OF r(1)] by (simp add: pages)
  have n: "map page_number (extract_text_by_page ?x) = [1, 3]" by (simp add: pages)
  have "printed_pages r = 2" using r(2) by (simp add: pages)
  with r k n show ?thesis by (intro exI[of _ r]) simp
qed

lemma process_manual_pages_1_3:
  assumes "t1 \<noteq> []" "t3 \<noteq> []"
  shows "\<exists>r. AviationManualProcessor_process_manual u e ix [Some t1, Some [], Some t3] m = Some r
      \<and> map doc_key (bulk r)
          = page_chunks \<lparr>page_number = 1, page_text = normalize t1\<rparr>
            @ page_chunks \<lparr>page_number = 3, page_text = normalize t3\<rparr>
      \<and> map page_number (AviationManualProcessor_parse_pdf [Some t1, Some [], Some t3]) = [1, 3]
      \<and> returned r = PyNone \<and> printed_pages r = 2 \<and> printed_chunks r = length (bulk r)"
proof -
  let ?x = "[Some t1, Some [], Some t3]"
  from process_manual_result[of u e ix ?x m]
  obtain r where r: "AviationManualProcessor_process_manual u e ix ?x m = Some r"
    "printed_pages r = length (AviationManualProcessor_parse_pdf ?x)"
    "printed_chunks r = length (bulk r)" "returned r = PyNone"
    by (elim exE conjE)
  note pages = parse_three_full[OF assms]
  have k: "map doc_key (bulk r)
          = page_chunks \<lparr>page_number = 1, page_text = normalize t1\<rparr>
            @ page_chunks \<lparr>page_number = 3, page_text = normalize t3\<rparr>"
    using process_manual_keys[OF r(1)] by (simp add: pages)
  have n: "map page_number (AviationManualProcessor_parse_pdf ?x) = [1, 3]" by (simp add: pages)
  have "printed_pages r = 2" using r(2) by (simp add: pages)
  with r k n show ?thesis by (intro exI[of _ r]) simp
qed

lemma three_page_index_pdf:
  "\<exists>r. index_pdf u e three_page_manual m = Some r
      \<and> map src_page (bulk r) = [1, 3] \<and> returned r = PyNone
      \<and> printed_pages r = 2 \<and> printed_chunks r = 2"
proof -
  have ne: "normalize (page_of_words 51) \<noteq> []"
    by (simp add: normalize_page_of_words page_of_words_nonempty)
  from index_pdf_pages_1_3[OF ne ne, of u e m, folded three_page_manual_def]
  obtain r where r: "index_pdf u e three_page_manual m = Some r"
    "map doc_key (bulk r)
       = page_chunks \<lparr>page_number = 1, page_text = normalize (page_of_words 51)\<rparr>
         @ page_chunks \<lparr>page_number = 3, page_text = normalize (page_of_words 51)\<rparr>"
    "returned r = PyNone" "printed_pages r = 2" "printed_chunks r = length (bulk r)"
    by (elim exE conjE)
  have p: "map src_page (bulk r) = [1, 3]"
    by (simp add: src_pages_of_keys r(2) normalize_page_of_words page_chunks_51)
  then have "length (bulk r) = 2" using length_map[of src_page "bulk r"] by simp
  with r p show ?thesis by simp
qed

lemma three_page_process_manual:
  "\<exists>r. AviationManualProcessor_process_manual u e ix three_page_manual m = Some r
      \<and> map src_page (bulk r) = [1, 3] \<and> returned r = PyNone
      \<and> printed_pages r = 2 \<and> printed_chunks r = 2"
proof -
  have ne: "page_of_words 51 \<noteq> []" by (simp add: page_of_words_nonempty)
  from process_manual_pages_1_3[OF ne ne, of u e ix m, folded three_page_manual_def]
  obtain r where r: "AviationManualProcessor_process_manual u e ix three_page_manual m = Some r"
    "map doc_key (bulk r)
       = page_chunks \<lparr>page_number = 1, page_text = normalize (page_of_words 51)\<rparr>
         @ page_chunks \<lparr>page_number = 3, page_text = normalize (page_of_words 51)\<rparr>"
    "returned r = PyNone" "printed_pages r = 2" "printed_chunks r = length (bulk r)"
    by (elim exE conjE)
  have p: "map src_page (bulk r) = [1, 3]"
    by (simp add: src_pages_of_keys r(2) normalize_page_of_words page_chunks_51)
  then have "length (bulk r) = 2" using length_map[of src_page "bulk r"] by simp
  with r p show ?thesis by simp
qed

lemma long_page_index_pdf:
  "\<exists>r. index_pdf u e long_page_manual m = Some r
      \<and> map src_page (bulk r) = [1, 1, 3]
      \<and> map page_number (extract_text_by_page long_page_manual) = [1, 3]"
proof -
  have ne: "normalize (page_of_words 801) \<noteq> []" "normalize (page_of_words 51) \<noteq> []"
    by (simp_all add: normalize_page_of_words page_of_words_nonempty)
  from index_pdf_pages_1_3[OF ne, of u e m, folded long_page_manual_def]
  obtain r where r: "index_pdf u e long_page_manual m = Some r"
    "map doc_key (bulk r)
       = page_chunks \<lparr>page_number = 1, page_text = normalize (page_of_words 801)\<rparr>
         @ page_chunks \<lparr>page_number = 3, page_text = normalize (page_of_words 51)\<rparr>"
    "map page_number (extract_text_by_page long_page_manual) = [1, 3]"
    by (elim exE conjE)
  have "map src_page (bulk r) = [1, 1, 3]"
    by (simp add: src_pages_of_keys r(2) normalize_page_of_words page_chunks_51 page_chunks_801)
  with r show ?thesis by (intro exI[of _ r]) simp
qed

lemma long_page_process_manual:
  "\<exists>r. AviationManualProcessor_process_manual u e ix long_page_manual m = Some r
      \<and> map src_page (bulk r) = [1, 1, 3]
      \<and> map page_number (AviationManualProcessor_parse_pdf long_page_manual) = [1, 3]"
proof -
  have ne: "page_of_words 801 \<noteq> []" "page_of_words 51 \<noteq> []"
    by (simp_all add: page_of_words_nonempty)
  from process_manual_pages_1_3[OF ne, of u e ix m, folded long_page_manual_def]
  obtain r where r: "AviationManualProcessor_process_manual u e ix long_page_manual m = Some r"
    "map doc_key (bulk r)
       = page_chunks \<lparr>page_number = 1, page_text = normalize (page_of_words 801)\<rparr>
         @ page_chunks \<lparr>page_number = 3, page_text = normalize (page_of_words 51)\<rparr>"
    "map page_number (AviationManualProcessor_parse_pdf long_page_manual) = [1, 3]"
    by (elim exE conjE)
  have "map src_page (bulk r) = [1, 1, 3]"
    by (simp add: src_pages_of_keys r(2) normalize_page_of_words page_chunks_51 page_chunks_801)
  with r show ?thesis by (intro exI[of _ r]) simp
qed

subsection \<open>Pages and their documents\<close>

lemma shared_by_page:
  assumes "distinct (map page_number pages)"
    "\<forall>d \<in> set ds. \<exists>p \<in> set pages. src_page d = page_number p \<and> f d = g p"
  shows "\<forall>d \<in> set ds. \<forall>d' \<in> set ds. src_page d = src_page d' \<longrightarrow> f d = f d'"
proof (intro ballI impI)
  fix d d' assume d: "d \<in> set ds" "d' \<in> set ds" "src_page d = src_page d'"
  from assms(2) d(1) obtain p where p: "p \<in> set pages" "src_page d = page_number p" "f d = g p"
    by blast
  from assms(2) d(2) obtain q where q: "q \<in> set pages" "src_page d' = page_number q" "f d' = g q"
    by blast
  have "p = q" using same_number_same_page[OF assms(1) p(1) q(1)] p(2) q(2) d(3) by simp
  with p q show "f d = f d'" by simp
qed


section \<open>Properties of metadata extraction and ingestion\<close>

text \<open>
  Claim C7, as the code has it. Metadata extraction applied to
  \<^verbatim>\<open>"SECTION 3.2: Engine Systems details..."\<close> returns the section
  \<^verbatim>\<open>"SECTION 3.2: Engine Systems details"\<close>, since the title run of the pattern takes
  letters, digits, hyphens and whitespace up to the first other character, here the
  full stop; the chapter and the part number are empty. This holds for the three
  \<^verbatim>\<open>infer_\<close> functions and for \<^verbatim>\<open>extract_metadata\<close>.
\<close>

theorem section_example:
  "infer_section ''SECTION 3.2: Engine Systems details...'' = ''SECTION 3.2: Engine Systems details''
   \<and> infer_chapter ''SECTION 3.2: Engine Systems details...'' = []
   \<and> infer_part_number ''SECTION 3.2: Engine Systems details...'' = []
   \<and> AviationManualProcessor_extract_metadata ''SECTION 3.2: Engine Systems details...''
       = \<lparr>meta_section = ''SECTION 3.2: Engine Systems details'', meta_ata_chapter = [],
          meta_part_number = []\<rparr>"
  by code_simp

text \<open>
  Claim C7 fails as stated: the section returned for the input is not
  \<^verbatim>\<open>"SECTION 3.2: Engine Systems"\<close>, and not a variant of it in another case either,
  since it is longer.
\<close>

theorem section_example_counterexample:
  "infer_section ''SECTION 3.2: Engine Systems details...'' \<noteq> ''SECTION 3.2: Engine Systems''
   \<and> length (infer_section ''SECTION 3.2: Engine Systems details...'')
       \<noteq> length ''SECTION 3.2: Engine Systems''
   \<and> meta_section (AviationManualProcessor_extract_metadata
         ''SECTION 3.2: Engine Systems details...'') \<noteq> ''SECTION 3.2: Engine Systems''
   \<and> length (meta_section (AviationManualProcessor_extract_metadata
         ''SECTION 3.2: Engine Systems details...'')) \<noteq> length ''SECTION 3.2: Engine Systems''"
  by code_simp

text \<open>
  Claim C6, as the code has it. \<^verbatim>\<open>infer_chapter\<close> tries \<^verbatim>\<open>ATA Chapter NN\<close> before
  the bare \<^verbatim>\<open>ATA NN\<close> and returns the match of the first variant that matches anywhere
  in the text, which need not be the leftmost occurrence: on
  \<^verbatim>\<open>"ATA 21 then ATA Chapter 49"\<close> it returns \<^verbatim>\<open>"ATA Chapter 49"\<close>.
  \<^verbatim>\<open>extract_metadata\<close> searches the single pattern with an optional \<^verbatim>\<open>Chapter\<close> and
  returns the leftmost match, \<^verbatim>\<open>"ATA 21"\<close> on that text.
\<close>

theorem chapter_patterns_in_order:
  "(re_search ata_chapter_pattern text True = Some m \<longrightarrow> infer_chapter text = str_strip m)
   \<and> (re_search ata_chapter_pattern text True = None \<longrightarrow>
        infer_chapter text
          = (case re_search ata_bare_pattern text True of Some b \<Rightarrow> str_strip b | None \<Rightarrow> []))
   \<and> re_search ata_bare_pattern ''ATA 21 then ATA Chapter 49'' True = Some ''ATA 21''
   \<and> infer_chapter ''ATA 21 then ATA Chapter 49'' = ''ATA Chapter 49''
   \<and> meta_ata_chapter (AviationManualProcessor_extract_metadata ''ATA 21 then ATA Chapter 49'')
       = ''ATA 21''"
proof -
  have 1: "re_search ata_bare_pattern ''ATA 21 then ATA Chapter 49'' True = Some ''ATA 21''"
    by code_simp
  have 2: "infer_chapter ''ATA 21 then ATA Chapter 49'' = ''ATA Chapter 49''" by code_simp
  have 3: "meta_ata_chapter (AviationManualProcessor_extract_metadata ''ATA 21 then ATA Chapter 49'')
       = ''ATA 21''" by code_simp
  have 4: "re_search ata_chapter_pattern text True = Some m \<longrightarrow> infer_chapter text = str_strip m"
    by (simp add: infer_chapter_def)
  have 5: "re_search ata_chapter_pattern text True = None \<longrightarrow>
        infer_chapter text
          = (case re_search ata_bare_pattern text True of Some b \<Rightarrow> str_strip b | None \<Rightarrow> [])"
    by (simp add: infer_chapter_def split: option.split)
  from 1 2 3 4 5 show ?thesis by blast
qed

text \<open>
  Instances of claim C6: a text in which the first variant matches, and a text in which
  only the bare variant does.
\<close>

theorem chapter_patterns_in_order_witness:
  "re_search ata_chapter_pattern ''ATA 21 then ATA Chapter 49'' True = Some ''ATA Chapter 49''
   \<and> infer_chapter ''ATA 21 then ATA Chapter 49'' = str_strip ''ATA Chapter 49''
   \<and> re_search ata_chapter_pattern ''see ATA 21'' True = None
   \<and> infer_chapter ''see ATA 21'' = ''ATA 21''"
proof -
  have h1: "re_search ata_chapter_pattern ''ATA 21 then ATA Chapter 49'' True = Some ''ATA Chapter 49''"
    by code_simp
  have h2: "re_search ata_chapter_pattern ''see ATA 21'' True = None" by code_simp
  have e: "(case re_search ata_bare_pattern ''see ATA 21'' True of Some b \<Rightarrow> str_strip b | None \<Rightarrow> [])
           = ''ATA 21''" by code_simp
  from chapter_patterns_in_order[of "''ATA 21 then ATA Chapter 49''" "''ATA Chapter 49''"] h1
  have a: "infer_chapter ''ATA 21 then ATA Chapter 49'' = str_strip ''ATA Chapter 49''" by blast
  from chapter_patterns_in_order[of "''see ATA 21''"] h2 e
  have b: "infer_chapter ''see ATA 21'' = ''ATA 21''" by simp
  from h1 a h2 b show ?thesis by blast
qed

text \<open>
  Claim C6 fails as stated for \<^verbatim>\<open>extract_metadata\<close>: on a text with a bare \<^verbatim>\<open>ATA 21\<close>
  before \<^verbatim>\<open>ATA Chapter 49\<close> it does not return \<^verbatim>\<open>"ATA Chapter 49"\<close>.
\<close>

theorem chapter_leftmost_counterexample:
  "meta_ata_chapter (AviationManualProcessor_extract_metadata ''ATA 21 then ATA Chapter 49'')
     \<noteq> ''ATA Chapter 49''"
  by code_simp

text \<open>
  Claim C8. In a run of either pipeline, every document carries the number of an
  extracted page and the section, chapter and part number extracted from the whole text
  of that page, so that documents of the same page carry the same triple. The metadata
  extractors are applied once to every extracted page, in page order, and every chunk is
  embedded after the metadata of its page has been extracted.
\<close>

theorem page_metadata_shared:
  "(\<exists>r. index_pdf uuid4 encode extracted manual = Some r
      \<and> (\<forall>d \<in> set (bulk r). \<exists>p \<in> set (extract_text_by_page extracted).
            src_page d = page_number p
            \<and> (src_section d, src_chapter d, src_part_number d)
                = (infer_section (page_text p), infer_chapter (page_text p),
                   infer_part_number (page_text p)))
      \<and> (\<forall>d \<in> set (bulk r). \<forall>d' \<in> set (bulk r). src_page d = src_page d' \<longrightarrow>
            (src_section d, src_chapter d, src_part_number d)
              = (src_section d', src_chapter d', src_part_number d'))
      \<and> inferred_pages (trace r) = map page_number (extract_text_by_page extracted)
      \<and> distinct (inferred_pages (trace r))
      \<and> inferred_before [] (trace r))
   \<and> (\<exists>r. AviationManualProcessor_process_manual uuid4 encode index_name extracted manual = Some r
      \<and> (\<forall>d \<in> set (bulk r). \<exists>p \<in> set (AviationManualProcessor_parse_pdf extracted).
            src_page d = page_number p
            \<and> (src_section d, src_chapter d, src_part_number d)
                = (meta_section (AviationManualProcessor_extract_metadata (page_text p)),
                   meta_ata_chapter (AviationManualProcessor_extract_metadata (page_text p)),
                   meta_part_number (AviationManualProcessor_extract_metadata (page_text p))))
      \<and> (\<forall>d \<in> set (bulk r). \<forall>d' \<in> set (bulk r). src_page d = src_page d' \<longrightarrow>
            (src_section d, src_chapter d, src_part_number d)
              = (src_section d', src_chapter d', src_part_number d'))
      \<and> inferred_pages (trace r) = map page_number (AviationManualProcessor_parse_pdf extracted)
      \<and> distinct (inferred_pages (trace r))
      \<and> inferred_before [] (trace r))"
proof
  from index_pdf_result[of uuid4 encode extracted manual]
  obtain r where r: "index_pdf uuid4 encode extracted manual = Some r"
    "\<forall>d \<in> set (bulk r). \<exists>p \<in> set (extract_text_by_page extracted). from_page p d"
    "inferred_pages (trace r) = map page_number (extract_text_by_page extracted)"
    "inferred_before [] (trace r)"
    by blast
  have a: "\<forall>d \<in> set (bulk r). \<exists>p \<in> set (extract_text_by_page extracted).
            src_page d = page_number p
            \<and> (src_section d, src_chapter d, src_part_number d)
                = (infer_section (page_text p), infer_chapter (page_text p),
                   infer_part_number (page_text p))"
    using r(2) by (simp add: from_page_def)
  have b: "\<forall>d \<in> set (bulk r). \<forall>d' \<in> set (bulk r). src_page d = src_page d' \<longrightarrow>
            (src_section d, src_chapter d, src_part_number d)
              = (src_section d', src_chapter d', src_part_number d')"
    using shared_by_page[OF extract_distinct a] .
  have c: "distinct (inferred_pages (trace r))" by (simp only: r(3) extract_distinct)
  from r(1) a b r(3) c r(4)
  show "\<exists>r. index_pdf uuid4 encode extracted manual = Some r
      \<and> (\<forall>d \<in> set (bulk r). \<exists>p \<in> set (extract_text_by_page extracted).
            src_page d = page_number p
            \<and> (src_section d, src_chapter d, src_part_number d)
                = (infer_section (page_text p), infer_chapter (page_text p),
                   infer_part_number (page_text p)))
      \<and> (\<forall>d \<in> set (bulk r). \<forall>d' \<in> set (bulk r). src_page d = src_page d' \<longrightarrow>
            (src_section d, src_chapter d, src_part_number d)
              = (src_section d', src_chapter d', src_part_number d'))
      \<and> inferred_pages (trace r) = map page_number (extract_text_by_page extracted)
      \<and> distinct (inferred_pages (trace r))
      \<and> inferred_before [] (trace r)"
    by blast
next
  from process_manual_result[of uuid4 encode index_name extracted manual]
  obtain r where r:
    "AviationManualProcessor_process_manual uuid4 encode index_name extracted manual = Some r"
    "\<forall>d \<in> set (bulk r). \<exists>p \<in> set (AviationManualProcessor_parse_pdf extracted). from_page_data p d"
    "inferred_pages (trace r) = map page_number (AviationManualProcessor_parse_pdf extracted)"
    "inferred_before [] (trace r)"
    by blast
  have a: "\<forall>d \<in> set (bulk r). \<exists>p \<in> set (AviationManualProcessor_parse_pdf extracted).
            src_page d = page_number p
            \<and> (src_section d, src_chapter d, src_part_number d)
                = (meta_section (AviationManualProcessor_extract_metadata (page_text p)),
                   meta_ata_chapter (AviationManualProcessor_extract_metadata (page_text p)),
                   meta_part_number (AviationManualProcessor_extract_metadata (page_text p)))"
    using r(2) by (simp add: from_page_data_def)
  have b: "\<forall>d \<in> set (bulk r). \<forall>d' \<in> set (bulk r). src_page d = src_page d' \<longrightarrow>
            (src_section d, src_chapter d, src_part_number d)
              = (src_section d', src_chapter d', src_part_number d')"
    using shared_by_page[OF parse_distinct a] .
  have c: "distinct (inferred_pages (trace r))" by (simp only: r(3) parse_distinct)
  from r(1) a b r(3) c r(4)
  show "\<exists>r. AviationManualProcessor_process_manual uuid4 encode index_name extracted manual = Some r
      \<and> (\<forall>d \<in> set (bulk r). \<exists>p \<in> set (AviationManualProcessor_parse_pdf extracted).
            src_page d = page_number p
            \<and> (src_section d, src_chapter d, src_part_number d)
                = (meta_section (AviationManualProcessor_extract_metadata (page_text p)),
                   meta_ata_chapter (AviationManualProcessor_extract_metadata (page_text p)),
                   meta_part_number (AviationManualProcessor_extract_metadata (page_text p))))
      \<and> (\<forall>d \<in> set (bulk r). \<forall>d' \<in> set (bulk r). src_page d = src_page d' \<longrightarrow>
            (src_section d, src_chapter d, src_part_number d)
              = (src_section d', src_chapter d', src_part_number d'))
      \<and> inferred_pages (trace r) = map page_number (AviationManualProcessor_parse_pdf extracted)
      \<and> distinct (inferred_pages (trace r))
      \<and> inferred_before [] (trace r)"
    by blast
qed

text \<open>
  An instance of claim C8: a manual whose page 1 gives two documents, whose page 2 has
  no text and whose page 3 gives one document.
\<close>

theorem page_metadata_shared_witness:
  "(\<exists>r. index_pdf id length long_page_manual ''APU_001'' = Some r
      \<and> map src_page (bulk r) = [1, 1, 3]
      \<and> (\<forall>d \<in> set (bulk r). \<forall>d' \<in> set (bulk r). src_page d = src_page d' \<longrightarrow>
            (src_section d, src_chapter d, src_part_number d)
              = (src_section d', src_chapter d', src_part_number d'))
      \<and> inferred_pages (trace r) = [1, 3]
      \<and> distinct (inferred_pages (trace r))
      \<and> inferred_before [] (trace r))
   \<and> (\<exists>r. AviationManualProcessor_process_manual id length ''aviation_manuals''
             long_page_manual ''APU_001'' = Some r
      \<and> map src_page (bulk r) = [1, 1, 3]
      \<and> (\<forall>d \<in> set (bulk r). \<forall>d' \<in> set (bulk r). src_page d = src_page d' \<longrightarrow>
            (src_section d, src_chapter d, src_part_number d)
              = (src_section d', src_chapter d', src_part_number d'))
      \<and> inferred_pages (trace r) = [1, 3]
      \<and> distinct (inferred_pages (trace r))
      \<and> inferred_before [] (trace r))"
proof -
  note t = page_metadata_shared[of id length long_page_manual "''APU_001''" "''aviation_manuals''"]
  have 1: "\<exists>r. index_pdf id length long_page_manual ''APU_001'' = Some r
      \<and> map src_page (bulk r) = [1, 1, 3]
      \<and> (\<forall>d \<in> set (bulk r). \<forall>d' \<in> set (bulk r). src_page d = src_page d' \<longrightarrow>
            (src_section d, src_chapter d, src_part_number d)
              = (src_section d', src_chapter d', src_part_number d'))
      \<and> inferred_pages (trace r) = [1, 3]
      \<and> distinct (inferred_pages (trace r))
      \<and> inferred_before [] (trace r)"
  proof -
    from long_page_index_pdf[of id length "''APU_001''"] obtain r where a:
      "index_pdf id length long_page_manual ''APU_001'' = Some r"
      "map src_page (bulk r) = [1, 1, 3]"
      "map page_number (extract_text_by_page long_page_manual) = [1, 3]"
      by (elim exE conjE)
    from conjunct1[OF t] obtain r' where b:
      "index_pdf id length long_page_manual ''APU_001'' = Some r'"
      "\<forall>d \<in> set (bulk r'). \<forall>d' \<in> set (bulk r'). src_page d = src_page d' \<longrightarrow>
            (src_section d, src_chapter d, src_part_number d)
              = (src_section d', src_chapter d', src_part_number d')"
      "inferred_pages (trace r') = map page_number (extract_text_by_page long_page_manual)"
      "distinct (inferred_pages (trace r'))"
      "inferred_before [] (trace r')"
      by (elim exE conjE)
    have eq: "r' = r" using a(1) b(1) by (simp only: option.inject)
    have c: "inferred_pages (trace r) = [1, 3]" using b(3) by (simp only: eq a(3))
    from a(1,2) b(2) c b(4,5) show ?thesis unfolding eq by (intro exI[of _ r] conjI)
  qed
  have 2: "\<exists>r. AviationManualProcessor_process_manual id length ''aviation_manuals''
             long_page_manual ''APU_001'' = Some r
      \<and> map src_page (bulk r) = [1, 1, 3]
      \<and> (\<forall>d \<in> set (bulk r). \<forall>d' \<in> set (bulk r). src_page d = src_page d' \<longrightarrow>
            (src_section d, src_chapter d, src_part_number d)
              = (src_section d', src_chapter d', src_part_number d'))
      \<and> inferred_pages (trace r) = [1, 3]
      \<and> distinct (inferred_pages (trace r))
      \<and> inferred_before [] (trace r)"
  proof -
    from long_page_process_manual[of id length "''aviation_manuals''" "''APU_001''"]
    obtain r where a:
      "AviationManualProcessor_process_manual id length ''aviation_manuals''
         long_page_manual ''APU_001'' = Some r"
      "map src_page (bulk r) = [1, 1, 3]"
      "map page_number (AviationManualProcessor_parse_pdf long_page_manual) = [1, 3]"
      by (elim exE conjE)
    from conjunct2[OF t] obtain r' where b:
      "AviationManualProcessor_process_manual id length ''aviation_manuals''
         long_page_manual ''APU_001'' = Some r'"
      "\<forall>d \<in> set (bulk r'). \<forall>d' \<in> set (bulk r'). src_page d = src_page d' \<longrightarrow>
            (src_section d, src_chapter d, src_part_number d)
              = (src_section d', src_chapter d', src_part_number d')"
      "inferred_pages (trace r')
         = map page_number (AviationManualProcessor_parse_pdf long_page_manual)"
      "distinct (inferred_pages (trace r'))"
      "inferred_before [] (trace r')"
      by (elim exE conjE)
    have eq: "r' = r" using a(1) b(1) by (simp only: option.inject)
    have c: "inferred_pages (trace r) = [1, 3]" using b(3) by (simp only: eq a(3))
    from a(1,2) b(2) c b(4,5) show ?thesis unfolding eq by (intro exI[of _ r] conjI)
  qed
  from 1 2 show ?thesis by (rule conjI)
qed

text \<open>
  Claim C9, as the code has it. Both ingestion entry points return \<^verbatim>\<open>None\<close>: they
  hand the batch to \<^verbatim>\<open>helpers.bulk\<close> and print the number of extracted pages and of
  indexed chunks, and nothing counts skipped pages. Ingesting a manual of three pages
  whose page 2 extracts to the empty text produces documents from pages 1 and 3 only; the
  printed number of pages is 2 when pages 1 and 3 have text.
\<close>

theorem empty_page_contributes_nothing:
  "(\<exists>r. index_pdf uuid4 encode [Some t1, Some [], Some t3] manual = Some r
      \<and> returned r = PyNone
      \<and> (\<forall>d \<in> set (bulk r). src_page d = 1 \<or> src_page d = 3)
      \<and> printed_chunks r = length (bulk r)
      \<and> printed_pages r = length (extract_text_by_page [Some t1, Some [], Some t3])
      \<and> (normalize t1 \<noteq> [] \<and> normalize t3 \<noteq> [] \<longrightarrow> printed_pages r = 2))
   \<and> (\<exists>r. AviationManualProcessor_process_manual uuid4 encode index_name
             [Some t1, Some [], Some t3] manual = Some r
      \<and> returned r = PyNone
      \<and> (\<forall>d \<in> set (bulk r). src_page d = 1 \<or> src_page d = 3)
      \<and> printed_chunks r = length (bulk r)
      \<and> printed_pages r = length (AviationManualProcessor_parse_pdf [Some t1, Some [], Some t3])
      \<and> (t1 \<noteq> [] \<and> t3 \<noteq> [] \<longrightarrow> printed_pages r = 2))"
proof
  let ?x = "[Some t1, Some [], Some t3]"
  from index_pdf_result[of uuid4 encode ?x manual]
  obtain r where r: "index_pdf uuid4 encode ?x manual = Some r"
    "\<forall>d \<in> set (bulk r). \<exists>p \<in> set (extract_text_by_page ?x). from_page p d"
    "printed_pages r = length (extract_text_by_page ?x)" "printed_chunks r = length (bulk r)"
    "returned r = PyNone"
    by blast
  have a: "\<forall>d \<in> set (bulk r). src_page d = 1 \<or> src_page d = 3"
  proof
    fix d assume "d \<in> set (bulk r)"
    with r(2) obtain p where p: "p \<in> set (extract_text_by_page ?x)" "from_page p d" by blast
    from p(1) extract_three[of "Some t1" "Some t3"] have "page_number p = 1 \<or> page_number p = 3"
      by auto
    with p(2) show "src_page d = 1 \<or> src_page d = 3" by (simp add: from_page_def)
  qed
  have b: "normalize t1 \<noteq> [] \<and> normalize t3 \<noteq> [] \<longrightarrow> printed_pages r = 2"
    using r(3) by (auto simp: extract_three_full)
  from r(1,5) a r(4,3) b
  show "\<exists>r. index_pdf uuid4 encode ?x manual = Some r
      \<and> returned r = PyNone
      \<and> (\<forall>d \<in> set (bulk r). src_page d = 1 \<or> src_page d = 3)
      \<and> printed_chunks r = length (bulk r)
      \<and> printed_pages r = length (extract_text_by_page ?x)
      \<and> (normalize t1 \<noteq> [] \<and> normalize t3 \<noteq> [] \<longrightarrow> printed_pages r = 2)"
    by blast
next
  let ?x = "[Some t1, Some [], Some t3]"
  from process_manual_result[of uuid4 encode index_name ?x manual]
  obtain r where r:
    "AviationManualProcessor_process_manual uuid4 encode index_name ?x manual = Some r"
    "\<forall>d \<in> set (bulk r). \<exists>p \<in> set (AviationManualProcessor_parse_pdf ?x). from_page_data p d"
    "printed_pages r = length (AviationManualProcessor_parse_pdf ?x)"
    "printed_chunks r = length (bulk r)" "returned r = PyNone"
    by blast
  have a: "\<forall>d \<in> set (bulk r). src_page d = 1 \<or> src_page d = 3"
  proof
    fix d assume "d \<in> set (bulk r)"
    with r(2) obtain p where p: "p \<in> set (AviationManualProcessor_parse_pdf ?x)"
      "from_page_data p d" by blast
    from p(1) parse_three[of "Some t1" "Some t3"] have "page_number p = 1 \<or> page_number p = 3"
      by auto
    with p(2) show "src_page d = 1 \<or> src_page d = 3" by (simp add: from_page_data_def)
  qed
  have b: "t1 \<noteq> [] \<and> t3 \<noteq> [] \<longrightarrow> printed_pages r = 2"
    using r(3) by (auto simp: parse_three_full)
  from r(1,5) a r(4,3) b
  show "\<exists>r. AviationManualProcessor_process_manual uuid4 encode index_name ?x manual = Some r
      \<and> returned r = PyNone
      \<and> (\<forall>d \<in> set (bulk r). src_page d = 1 \<or> src_page d = 3)
      \<and> printed_chunks r = length (bulk r)
      \<and> printed_pages r = length (AviationManualProcessor_parse_pdf ?x)
      \<and> (t1 \<noteq> [] \<and> t3 \<noteq> [] \<longrightarrow> printed_pages r = 2)"
    by blast
qed

text \<open>
  An instance of claim C9: the three-page manual gives two documents, of pages 1 and 3.
\<close>

theorem empty_page_contributes_nothing_witness:
  "normalize (page_of_words 51) \<noteq> [] \<and> page_of_words 51 \<noteq> []
   \<and> (\<exists>r. index_pdf id length three_page_manual ''APU_001'' = Some r
      \<and> returned r = PyNone \<and> map src_page (bulk r) = [1, 3]
      \<and> printed_chunks r = 2 \<and> printed_pages r = 2)
   \<and> (\<exists>r. AviationManualProcessor_process_manual id length ''aviation_manuals''
             three_page_manual ''APU_001'' = Some r
      \<and> returned r = PyNone \<and> map src_page (bulk r) = [1, 3]
      \<and> printed_chunks r = 2 \<and> printed_pages r = 2)"
proof -
  let ?p = "page_of_words 51"
  note t = empty_page_contributes_nothing
             [of id length ?p ?p "''APU_001''" "''aviation_manuals''",
              folded three_page_manual_def]
  have h': "?p \<noteq> []" by (simp add: page_of_words_nonempty)
  have h: "normalize ?p \<noteq> []" unfolding normalize_page_of_words by (rule h')
  have 1: "\<exists>r. index_pdf id length three_page_manual ''APU_001'' = Some r
      \<and> returned r = PyNone \<and> map src_page (bulk r) = [1, 3]
      \<and> printed_chunks r = 2 \<and> printed_pages r = 2"
  proof -
    from conjunct1[OF t] obtain r where b:
      "index_pdf id length three_page_manual ''APU_001'' = Some r" "returned r = PyNone"
      "normalize ?p \<noteq> [] \<and> normalize ?p \<noteq> [] \<longrightarrow> printed_pages r = 2"
      by (elim exE conjE)
    from three_page_index_pdf[of id length "''APU_001''"] obtain r' where a:
      "index_pdf id length three_page_manual ''APU_001'' = Some r'"
      "map src_page (bulk r') = [1, 3]" "printed_chunks r' = 2"
      by (elim exE conjE)
    have eq: "r' = r" using b(1) a(1) by (simp only: option.inject)
    have p: "printed_pages r = 2" using b(3) h by (simp only: simp_thms)
    from b(1,2) a(2,3) p show ?thesis unfolding eq by (intro exI[of _ r] conjI)
  qed
  have 2: "\<exists>r. AviationManualProcessor_process_manual id length ''aviation_manuals''
             three_page_manual ''APU_001'' = Some r
      \<and> returned r = PyNone \<and> map src_page (bulk r) = [1, 3]
      \<and> printed_chunks r = 2 \<and> printed_pages r = 2"
  proof -
    from conjunct2[OF t] obtain r where b:
      "AviationManualProcessor_process_manual id length ''aviation_manuals''
         three_page_manual ''APU_001'' = Some r"
      "returned r = PyNone" "?p \<noteq> [] \<and> ?p \<noteq> [] \<longrightarrow> printed_pages r = 2"
      by (elim exE conjE)
    from three_page_process_manual[of id length "''aviation_manuals''" "''APU_001''"]
    obtain r' where a:
      "AviationManualProcessor_process_manual id length ''aviation_manuals''
         three_page_manual ''APU_001'' = Some r'"
      "map src_page (bulk r') = [1, 3]" "printed_chunks r' = 2"
      by (elim exE conjE)
    have eq: "r' = r" using b(1) a(1) by (simp only: option.inject)
    have p: "printed_pages r = 2" using b(3) h' by (simp only: simp_thms)
    from b(1,2) a(2,3) p show ?thesis unfolding eq by (intro exI[of _ r] conjI)
  qed
  from h h' 1 2 show ?thesis by (intro conjI)
qed

text \<open>
  Claim C9 fails as stated: on the three-page manual both entry points return \<^verbatim>\<open>None\<close>
  and not the pair of the document count 2 and the skipped-page count 1.
\<close>

theorem ingest_returns_no_counts_counterexample:
  "map_option returned (index_pdf id length three_page_manual ''APU_001'') = Some PyNone
   \<and> map_option (map src_page \<circ> bulk) (index_pdf id length three_page_manual ''APU_001'')
       = Some [1, 3]
   \<and> map_option returned
        (AviationManualProcessor_process_manual id length ''aviation_manuals''
           three_page_manual ''APU_001'') = Some PyNone
   \<and> map_option (map src_page \<circ> bulk)
        (AviationManualProcessor_process_manual id length ''aviation_manuals''
           three_page_manual ''APU_001'') = Some [1, 3]
   \<and> PyNone \<noteq> PyTuple [PyInt 2, PyInt 1]"
proof -
  from three_page_index_pdf[of id length "''APU_001''"] obtain r where a:
    "index_pdf id length three_page_manual ''APU_001'' = Some r"
    "map src_page (bulk r) = [1, 3]" "returned r = PyNone"
    by (elim exE conjE)
  from three_page_process_manual[of id length "''aviation_manuals''" "''APU_001''"]
  obtain q where b:
    "AviationManualProcessor_process_manual id length ''aviation_manuals''
       three_page_manual ''APU_001'' = Some q"
    "map src_page (bulk q) = [1, 3]" "returned q = PyNone"
    by (elim exE conjE)
  have 1: "map_option returned (index_pdf id length three_page_manual ''APU_001'') = Some PyNone"
    by (simp only: a option.map)
  have 2: "map_option (map src_page \<circ> bulk) (index_pdf id length three_page_manual ''APU_001'')
             = Some [1, 3]"
    by (simp only: a option.map comp_apply)
  have 3: "map_option returned
             (AviationManualProcessor_process_manual id length ''aviation_manuals''
                three_page_manual ''APU_001'') = Some PyNone"
    by (simp only: b option.map)
  have 4: "map_option (map src_page \<circ> bulk)
             (AviationManualProcessor_process_manual id length ''aviation_manuals''
                three_page_manual ''APU_001'') = Some [1, 3]"
    by (simp only: b option.map comp_apply)
  have 5: "PyNone \<noteq> PyTuple [PyInt 2, PyInt 1]" by simp
  from 1 2 3 4 5 show ?thesis by (intro conjI)
qed

end
